theory Spec2Isabelle
  imports Complex_Main "HOL-Library.Sublist"
begin

section \<open>Python and numpy values used by \<open>pylib/change_geometry.py\<close>\<close>

text \<open>
  The exceptions the conversion can raise. \<open>SolverError\<close> stands for any exception that
  escapes from the solver's \<open>bbb.exmain()\<close>.
\<close>

datatype err = AssertionError | IndexError | ValueError | UnboundLocalError | SolverError

definition ebind :: "err + 'a \<Rightarrow> ('a \<Rightarrow> err + 'b) \<Rightarrow> err + 'b" where
  "ebind m f = (case m of Inl e \<Rightarrow> Inl e | Inr x \<Rightarrow> f x)"

text \<open>
  A numpy array. \<open>Sc x\<close> is a scalar (rank 0); \<open>Ar sh xs\<close> is an array whose entries
  along axis 0 are \<open>xs\<close>, each of shape \<open>sh\<close>. The trailing shape is stored, as numpy
  stores it, so that an array with no rows still has its trailing dimensions.
  Entries are of any type with \<open>0\<close> and unary minus; the solver's arrays are float64,
  taken here as \<open>real\<close> (the code only copies, negates and doubles values).
\<close>

datatype 'a nd = Sc 'a | Ar "nat list" "'a nd list"

fun shape :: "'a nd \<Rightarrow> nat list" where
  "shape (Sc x) = []"
| "shape (Ar sh xs) = length xs # sh"

text \<open>Every numpy array is rectangular: each entry along axis 0 has the trailing shape.\<close>

fun wf_nd :: "'a nd \<Rightarrow> bool" where
  "wf_nd (Sc x) = True"
| "wf_nd (Ar sh xs) = list_all (\<lambda>x. wf_nd x \<and> shape x = sh) xs"

text \<open>\<open>np.zeros(sh)\<close>.\<close>

fun zeros :: "nat list \<Rightarrow> 'a::zero nd" where
  "zeros [] = Sc 0"
| "zeros (n # sh) = Ar sh (replicate n (zeros sh))"

text \<open>
  A bound \<open>i\<close> of a Python slice over \<open>n\<close> entries (step 1): a negative bound counts from
  the end, and the result is clamped to \<open>0..n\<close>. An omitted start is \<open>0\<close>, an omitted
  stop is \<open>n\<close>; a slice whose stop is not above its start is empty.
\<close>

definition slice_bound :: "int \<Rightarrow> nat \<Rightarrow> nat" where
  "slice_bound i n =
     (if i < 0 then (if i + int n < 0 then 0 else nat (i + int n))
      else if int n < i then n else nat i)"

definition slice_idx :: "int option \<Rightarrow> int option \<Rightarrow> nat \<Rightarrow> nat \<times> nat" where
  "slice_idx a b n =
     ((case a of None \<Rightarrow> 0 | Some i \<Rightarrow> slice_bound i n),
      (case b of None \<Rightarrow> n | Some j \<Rightarrow> slice_bound j n))"

text \<open>An integer index: negative indices count from the end, out of range raises.\<close>

definition py_index :: "int \<Rightarrow> nat \<Rightarrow> nat option" where
  "py_index i n =
     (if 0 \<le> i \<and> i < int n then Some (nat i)
      else if - int n \<le> i \<and> i < 0 then Some (nat (i + int n))
      else None)"

text \<open>\<open>x[a:b, :]\<close>: two indices, so a rank below 2 raises IndexError.\<close>

definition get_rows :: "int option \<Rightarrow> int option \<Rightarrow> 'a nd \<Rightarrow> err + 'a nd" where
  "get_rows a b x =
     (case x of
        Ar (m # sh) xs \<Rightarrow>
          (case slice_idx a b (length xs) of
             (lo, hi) \<Rightarrow> Inr (Ar (m # sh) (take (hi - lo) (drop lo xs))))
      | _ \<Rightarrow> Inl IndexError)"

text \<open>\<open>x[::-1, ...]\<close>.\<close>

fun rev_rows :: "'a nd \<Rightarrow> 'a nd" where
  "rev_rows (Sc x) = Sc x"
| "rev_rows (Ar sh xs) = Ar sh (rev xs)"

text \<open>\<open>-x\<close>, elementwise.\<close>

definition neg :: "'a::uminus nd \<Rightarrow> 'a nd" where
  "neg x = map_nd uminus x"

text \<open>
  The slice \<open>:k\<close> on axis \<open>d\<close>, all other axes whole (\<open>x[:, :, :k]\<close> is \<open>upto_axis 2 k x\<close>).
\<close>

fun upto_axis :: "nat \<Rightarrow> int \<Rightarrow> 'a nd \<Rightarrow> 'a nd" where
  "upto_axis d k (Sc x) = Sc x"
| "upto_axis 0 k (Ar sh xs) = Ar sh (take (slice_bound k (length xs)) xs)"
| "upto_axis (Suc d) k (Ar sh xs) =
     Ar (if d < length sh then sh[d := slice_bound k (sh ! d)] else sh)
        (map (upto_axis d k) xs)"

text \<open>\<open>x[a:b, :, :k]\<close>: three indices, so a rank below 3 raises IndexError.\<close>

definition get_rows3 :: "int option \<Rightarrow> int option \<Rightarrow> int \<Rightarrow> 'a nd \<Rightarrow> err + 'a nd" where
  "get_rows3 a b k x =
     (case x of
        Ar (m # n # sh) xs \<Rightarrow>
          (case slice_idx a b (length xs) of
             (lo, hi) \<Rightarrow> Inr (upto_axis 2 k (Ar (m # n # sh) (take (hi - lo) (drop lo xs)))))
      | _ \<Rightarrow> Inl IndexError)"

text \<open>
  numpy's broadcast of a source to a target shape of the same rank: along each axis the
  source's extent is the target's, or it is 1 and the single entry is repeated (also
  zero times). Anything else is numpy's "could not broadcast" ValueError, here \<open>None\<close>.
  A source without entries has only its stored trailing shape to compare (\<open>fits\<close>).
  The sources of this program have the rank of their targets: \<open>full_var\<close> is built with
  the rank of \<open>lower_var\<close>, and \<open>bbb.ups\<close> is declared with three dimensions like \<open>upss\<close>;
  a source of another rank is outside the model and gives \<open>None\<close>.
\<close>

definition fits :: "nat list \<Rightarrow> nat list \<Rightarrow> bool" where
  "fits target source = list_all2 (\<lambda>t s. s = t \<or> s = 1) target source"

fun broadcast_to :: "nat list \<Rightarrow> 'a nd \<Rightarrow> 'a nd option" where
  "broadcast_to [] (Sc x) = Some (Sc x)"
| "broadcast_to (n # sh) (Ar sh' xs) =
     (if xs = [] then (if n = 0 \<and> fits sh sh' then Some (Ar sh []) else None)
      else if length xs = n then map_option (Ar sh) (those (map (broadcast_to sh) xs))
      else if length xs = 1 then map_option (\<lambda>y. Ar sh (replicate n y)) (broadcast_to sh (hd xs))
      else None)"
| "broadcast_to [] (Ar sh' xs) = None"
| "broadcast_to (n # sh) (Sc x) = None"

text \<open>\<open>full[a:b, ...] = src\<close>: the rows \<open>a:b\<close> of \<open>full\<close> are replaced by \<open>src\<close>, broadcast.\<close>

definition set_rows :: "int option \<Rightarrow> int option \<Rightarrow> 'a nd \<Rightarrow> 'a nd \<Rightarrow> err + 'a nd" where
  "set_rows a b src full =
     (case full of
        Sc x \<Rightarrow> Inl IndexError
      | Ar sh xs \<Rightarrow>
          (case slice_idx a b (length xs) of
             (lo, hi) \<Rightarrow>
               (case broadcast_to ((hi - lo) # sh) src of
                  Some (Ar sh' ys) \<Rightarrow> Inr (Ar sh (take lo xs @ ys @ drop (lo + (hi - lo)) xs))
                | _ \<Rightarrow> Inl ValueError)))"

text \<open>\<open>x[i, ...]\<close> and \<open>x[i, ...] = r\<close> for an integer \<open>i\<close>.\<close>

definition get_row :: "int \<Rightarrow> 'a nd \<Rightarrow> err + 'a nd" where
  "get_row i x =
     (case x of
        Sc v \<Rightarrow> Inl IndexError
      | Ar sh xs \<Rightarrow>
          (case py_index i (length xs) of
             None \<Rightarrow> Inl IndexError
           | Some k \<Rightarrow> Inr (xs ! k)))"

definition set_row :: "int \<Rightarrow> 'a nd \<Rightarrow> 'a nd \<Rightarrow> err + 'a nd" where
  "set_row i r x =
     (case x of
        Sc v \<Rightarrow> Inl IndexError
      | Ar sh xs \<Rightarrow>
          (case py_index i (length xs) of
             None \<Rightarrow> Inl IndexError
           | Some k \<Rightarrow>
               (case broadcast_to sh r of
                  None \<Rightarrow> Inl ValueError
                | Some r' \<Rightarrow> Inr (Ar sh (xs[k := r'])))))"

section \<open>The index layout (lines 31 to 40)\<close>

text \<open>
  The grid sizes come from the solver as machine integers; they count mesh cells and stay
  far from the machine range, so they are taken as \<open>int\<close>.
\<close>

record layout =
  half_nx :: int
  half_ny :: int
  half_inner :: int
  half_outer :: int

definition full_inner :: "layout \<Rightarrow> int" where
  "full_inner d = 2 * half_inner d - 2"

definition full_outer :: "layout \<Rightarrow> int" where
  "full_outer d = 2 * half_outer d - 2"

section \<open>The cell-centred reflector (lines 48 to 71)\<close>

definition reflect_centred :: "layout \<Rightarrow> 'a::zero nd \<Rightarrow> err + 'a nd" where
  "reflect_centred d lower_var =
     (if 2 * half_nx d < 0 then Inl ValueError
      else
        ebind (get_rows None (Some (half_inner d)) lower_var) (\<lambda>r1.
        ebind (set_rows None (Some (half_inner d)) r1
                 (zeros (nat (2 * half_nx d) # tl (shape lower_var)))) (\<lambda>f1.
        ebind (get_rows None (Some (half_inner d - 1)) lower_var) (\<lambda>r2.
        ebind (set_rows (Some (half_inner d - 1)) (Some (2 * half_inner d - 2))
                 (rev_rows r2) f1) (\<lambda>f2.
        ebind (get_rows (Some (half_inner d + 1)) None lower_var) (\<lambda>r3.
        ebind (set_rows (Some (full_inner d + half_outer d - 1)) None r3 f2) (\<lambda>f3.
        ebind (get_rows (Some (half_inner d + 1)) None lower_var) (\<lambda>r4.
        set_rows (Some (full_inner d)) (Some (full_inner d + half_outer d - 1))
          (rev_rows r4) f3))))))))"

section \<open>The staggered parallel flow (lines 97 to 112)\<close>

text \<open>
  Lines 97 to 109: the zero array \<open>upss\<close> and the four segment copies. \<open>np.zeros\<close> raises
  ValueError on a negative extent. \<open>nusp\<close> is \<open>com.nusp\<close>.
\<close>

definition upss_segments :: "layout \<Rightarrow> int \<Rightarrow> 'a::{zero,uminus} nd \<Rightarrow> err + 'a nd" where
  "upss_segments d nusp ups =
     (if 2 * half_nx d < 0 \<or> half_ny d + 2 < 0 \<or> nusp < 0 then Inl ValueError
      else
        ebind (get_rows3 None (Some (half_inner d)) nusp ups) (\<lambda>r1.
        ebind (set_rows None (Some (half_inner d)) r1
                 (zeros [nat (2 * half_nx d), nat (half_ny d + 2), nat nusp])) (\<lambda>u1.
        ebind (get_rows3 None (Some (half_inner d - 1)) nusp ups) (\<lambda>r2.
        ebind (set_rows (Some (half_inner d - 2)) (Some (2 * half_inner d - 3))
                 (neg (rev_rows r2)) u1) (\<lambda>u2.
        ebind (get_rows3 (Some (half_inner d + 1)) None nusp ups) (\<lambda>r3.
        ebind (set_rows (Some (full_inner d + half_outer d - 1)) None r3 u2) (\<lambda>u3.
        ebind (get_rows3 (Some (half_inner d + 1)) None nusp ups) (\<lambda>r4.
        set_rows (Some (full_inner d - 1)) (Some (full_inner d + half_outer d - 2))
          (neg (rev_rows r4)) u3))))))))"

text \<open>Line 112 after them: \<open>upss[2*half_inner-3, :, :] = upss[2*half_inner-4, :, :]\<close>.\<close>

definition upss_of :: "layout \<Rightarrow> int \<Rightarrow> 'a::{zero,uminus} nd \<Rightarrow> err + 'a nd" where
  "upss_of d nusp ups =
     ebind (upss_segments d nusp ups) (\<lambda>u.
     ebind (get_row (2 * half_inner d - 4) u) (\<lambda>r.
     set_row (2 * half_inner d - 3) r u))"

section \<open>The solver state and \<open>dnbot_to_dnull\<close>\<close>

text \<open>
  The attributes of the solver packages \<open>com\<close> and \<open>bbb\<close> that the function reads or
  writes. \<open>com_geometry\<close> is \<open>str(com.geometry)\<close>. Integers are Python's; the float
  scalars are taken as \<open>real\<close>. Assigning an attribute replaces the field.
\<close>

record solver =
  com_geometry :: string
  com_nx :: int
  com_ny :: int
  com_nusp :: int
  com_nxleg :: "int list list"
  com_nxcore :: "int list list"
  com_nxomit :: int
  com_isudsym :: int
  bbb_isfixlb :: int
  bbb_restart :: int
  bbb_newgeo :: int
  bbb_icntnunk :: int
  bbb_ftol :: real
  bbb_dtreal :: real
  bbb_isimpon :: int
  bbb_iflcore :: int
  bbb_pcoree :: real
  bbb_pcorei :: real
  bbb_nis :: "real nd"
  bbb_ups :: "real nd"
  bbb_tes :: "real nd"
  bbb_tis :: "real nd"
  bbb_ngs :: "real nd"
  bbb_phis :: "real nd"
  bbb_kye_use :: "real nd"
  bbb_kyi_use :: "real nd"
  bbb_dif_use :: "real nd"
  bbb_afracs :: "real nd"

text \<open>\<open>"dnbot" in str(com.geometry)\<close>: the substring test.\<close>

fun contains :: "string \<Rightarrow> string \<Rightarrow> bool" where
  "contains sub [] = (sub = [])"
| "contains sub (c # cs) = (prefix sub (c # cs) \<or> contains sub cs)"

text \<open>\<open>m[i, j]\<close> on a two-dimensional integer array, for indices that are not negative.\<close>

definition at2 :: "int list list \<Rightarrow> nat \<Rightarrow> nat \<Rightarrow> err + int" where
  "at2 m i j = (if i < length m \<and> j < length (m ! i) then Inr (m ! i ! j) else Inl IndexError)"

text \<open>Lines 33 to 37.\<close>

definition layout_of :: "solver \<Rightarrow> err + layout" where
  "layout_of s =
     ebind (at2 (com_nxleg s) 0 0) (\<lambda>l0.
     ebind (at2 (com_nxcore s) 0 0) (\<lambda>c0.
     ebind (at2 (com_nxleg s) 0 1) (\<lambda>l1.
     ebind (at2 (com_nxcore s) 0 1) (\<lambda>c1.
     Inr \<lparr>half_nx = com_nx s, half_ny = com_ny s,
          half_inner = l0 + c0 + 1, half_outer = l1 + c1 + 1\<rparr>))))"

text \<open>
  The local variables of lines 75 to 112. \<open>afracs\<close> is bound only when
  \<open>bbb.isimpon == 2\<close> (line 86).
\<close>

record snapshot =
  niss :: "real nd"
  tess :: "real nd"
  tiss :: "real nd"
  ngss :: "real nd"
  phiss :: "real nd"
  kye_use :: "real nd"
  kyi_use :: "real nd"
  dif_use :: "real nd"
  afracs :: "real nd option"
  upss :: "real nd"

definition reflect_all :: "solver \<Rightarrow> err + snapshot" where
  "reflect_all s =
     ebind (layout_of s) (\<lambda>d.
     ebind (reflect_centred d (bbb_nis s)) (\<lambda>v1.
     ebind (reflect_centred d (bbb_tes s)) (\<lambda>v2.
     ebind (reflect_centred d (bbb_tis s)) (\<lambda>v3.
     ebind (reflect_centred d (bbb_ngs s)) (\<lambda>v4.
     ebind (reflect_centred d (bbb_phis s)) (\<lambda>v5.
     ebind (reflect_centred d (bbb_kye_use s)) (\<lambda>v6.
     ebind (reflect_centred d (bbb_kyi_use s)) (\<lambda>v7.
     ebind (reflect_centred d (bbb_dif_use s)) (\<lambda>v8.
     ebind (if bbb_isimpon s = 2
            then ebind (reflect_centred d (bbb_afracs s)) (\<lambda>a. Inr (Some a))
            else Inr None) (\<lambda>v9.
     ebind (upss_of d (com_nusp s) (bbb_ups s)) (\<lambda>v10.
     Inr \<lparr>niss = v1, tess = v2, tiss = v3, ngss = v4, phiss = v5,
          kye_use = v6, kyi_use = v7, dif_use = v8, afracs = v9, upss = v10\<rparr>)))))))))))"

text \<open>Lines 115 to 126, up to the call of \<open>bbb.exmain()\<close>.\<close>

definition set_switches :: "solver \<Rightarrow> solver" where
  "set_switches s =
     s\<lparr>com_nxomit := 0, bbb_isfixlb := 0, com_isudsym := 0, com_geometry := ''dnull'',
       bbb_restart := 1, bbb_newgeo := 1, bbb_icntnunk := 0,
       bbb_ftol := 10 ^ 10, bbb_dtreal := 1 / 10 ^ 6\<rparr>"

text \<open>Lines 148 to 150.\<close>

definition double_core :: "solver \<Rightarrow> solver" where
  "double_core s =
     (if bbb_iflcore s = 1
      then s\<lparr>bbb_pcoree := bbb_pcoree s * 2, bbb_pcorei := bbb_pcorei s * 2\<rparr>
      else s)"

text \<open>
  Lines 127 to 150, on the state the solver returned. Line 143 reads \<open>bbb.isimpon\<close>
  again; when it is 2 and line 86 did not bind \<open>afracs\<close>, line 145 raises.
\<close>

definition commit :: "snapshot \<Rightarrow> solver \<Rightarrow> err option \<times> solver" where
  "commit v s2 =
     (let s3 = s2\<lparr>bbb_newgeo := 0, bbb_ftol := 1 / 10 ^ 8,
                   bbb_nis := niss v, bbb_ups := upss v, bbb_tes := tess v,
                   bbb_tis := tiss v, bbb_ngs := ngss v, bbb_phis := phiss v,
                   bbb_kye_use := kye_use v, bbb_kyi_use := kyi_use v,
                   bbb_dif_use := dif_use v\<rparr>
      in if bbb_isimpon s3 = 2
         then (case afracs v of
                 None \<Rightarrow> (Some UnboundLocalError, s3)
               | Some a \<Rightarrow> (None, double_core (s3\<lparr>bbb_afracs := a\<rparr>)))
         else (None, double_core s3))"

text \<open>
  The whole function. The solver's \<open>bbb.exmain()\<close> is a parameter: it takes the state
  and returns the state it leaves and whether it returned normally. The result is the
  exception raised, if any, and the solver state at that moment.
\<close>

definition dnbot_to_dnull :: "(solver \<Rightarrow> bool \<times> solver) \<Rightarrow> solver \<Rightarrow> err option \<times> solver" where
  "dnbot_to_dnull exmain s =
     (if \<not> contains ''dnbot'' (com_geometry s) then (Some AssertionError, s)
      else
        (case reflect_all s of
           Inl e \<Rightarrow> (Some e, s)
         | Inr v \<Rightarrow>
             (case exmain (set_switches s) of
                (False, s2) \<Rightarrow> (Some SolverError, s2)
              | (True, s2) \<Rightarrow> commit v s2)))"

section \<open>Inputs that fit the layout\<close>

text \<open>
  Line 32 of the source gives the sizes of the solver's working arrays as
  \<open>[half_nx + 2, half_ny + 2, com.nisp]\<close>, and the four segment copies only fit when the
  poloidal extent is \<open>half_inner + half_outer\<close>. A field is consistent with the layout
  when it is a rectangular array of rank 2 or more with \<open>half_inner + half_outer\<close> rows,
  and \<open>half_nx\<close> is that number less the two guard cells.
\<close>

definition consistent :: "layout \<Rightarrow> 'a nd \<Rightarrow> bool" where
  "consistent d x =
     (wf_nd x \<and> 2 \<le> length (shape x) \<and> 1 \<le> half_inner d \<and> 1 \<le> half_outer d \<and>
      int (hd (shape x)) = half_inner d + half_outer d \<and>
      half_nx d = half_inner d + half_outer d - 2)"

text \<open>
  The flow array fits when it has three dimensions, \<open>half_ny + 2\<close> radial entries and at
  least \<open>nusp\<close> species, and the inner half has a cell besides its guard cell.
\<close>

definition consistent_ups :: "layout \<Rightarrow> int \<Rightarrow> 'a nd \<Rightarrow> bool" where
  "consistent_ups d nusp x =
     (wf_nd x \<and> length (shape x) = 3 \<and> 2 \<le> half_inner d \<and> 1 \<le> half_outer d \<and>
      int (shape x ! 0) = half_inner d + half_outer d \<and>
      half_nx d = half_inner d + half_outer d - 2 \<and>
      int (shape x ! 1) = half_ny d + 2 \<and> 0 \<le> nusp \<and> nusp \<le> int (shape x ! 2))"

text \<open>The rows of the two reflections in closed form, used in the proofs.\<close>

definition centred_rows :: "nat \<Rightarrow> 'a list \<Rightarrow> 'a list" where
  "centred_rows h xs =
     take (h - 1) xs @ rev (take (h - 1) xs) @ rev (drop (h + 1) xs) @ drop (h + 1) xs"

definition stag_rows :: "nat \<Rightarrow> 'a::uminus nd \<Rightarrow> 'a nd list \<Rightarrow> 'a nd list" where
  "stag_rows h w U =
     take (h - 2) U @ map neg (rev (take (h - 1) U)) @ map neg (rev (drop (h + 1) U)) @ [w] @
     drop (h + 1) U"

text \<open>The flow array after line 112 in closed form: row \<open>2*half_inner-3\<close> replaced.\<close>

definition stag_final :: "nat \<Rightarrow> 'a::uminus nd \<Rightarrow> 'a nd list \<Rightarrow> 'a nd list" where
  "stag_final h w U =
     (take (h - 2) U @ map neg (rev (take (h - 1) U))) @
     (map neg (rev (drop (h + 1) U)) @ [w])[0 := neg (U ! 0)] @ drop (h + 1) U"

text \<open>Every entry of an array satisfies \<open>P\<close>; all entries positive, all negative.\<close>

fun all_nd :: "('a \<Rightarrow> bool) \<Rightarrow> 'a nd \<Rightarrow> bool" where
  "all_nd P (Sc x) = P x"
| "all_nd P (Ar sh xs) = list_all (all_nd P) xs"

definition all_pos :: "'a::{zero,ord} nd \<Rightarrow> bool" where
  "all_pos x = all_nd (\<lambda>v. 0 < v) x"

definition all_neg :: "'a::{zero,ord} nd \<Rightarrow> bool" where
  "all_neg x = all_nd (\<lambda>v. v < 0) x"

section \<open>Concrete inputs\<close>

definition vec :: "'a list \<Rightarrow> 'a nd" where
  "vec vs = Ar [] (map Sc vs)"

definition mat :: "nat \<Rightarrow> 'a list list \<Rightarrow> 'a nd" where
  "mat n rs = Ar [n] (map vec rs)"

definition cube :: "nat \<Rightarrow> nat \<Rightarrow> 'a list list list \<Rightarrow> 'a nd" where
  "cube m n rs = Ar [m, n] (map (mat n) rs)"

text \<open>A half mesh with two cells on each side: six poloidal rows, \<open>com.nx = 4\<close>.\<close>

definition d33 :: layout where
  "d33 = \<lparr>half_nx = 4, half_ny = 0, half_inner = 3, half_outer = 3\<rparr>"

definition F6 :: "real nd" where
  "F6 = mat 2 [[1, 2], [3, 4], [5, 6], [7, 8], [9, 10], [11, 12]]"

definition U6 :: "real nd" where
  "U6 = cube 2 2 [[[1, 2], [3, 4]], [[5, 6], [7, 8]], [[9, 10], [11, 12]],
                  [[13, 14], [15, 16]], [[17, 18], [19, 20]], [[21, 22], [23, 24]]]"

text \<open>A half mesh whose outer half has no cell besides the guard cell.\<close>

definition d31 :: layout where
  "d31 = \<lparr>half_nx = 2, half_ny = 0, half_inner = 3, half_outer = 1\<rparr>"

definition U4 :: "real nd" where
  "U4 = cube 2 2 [[[1, 2], [3, 4]], [[5, 6], [7, 8]], [[9, 10], [11, 12]],
                  [[13, 14], [15, 16]]]"

text \<open>The reflections of \<open>F6\<close> and \<open>U6\<close> on \<open>d33\<close> (with one species) and of \<open>U4\<close> on \<open>d31\<close>.\<close>

definition F6_full :: "real nd" where
  "F6_full = mat 2 [[1, 2], [3, 4], [3, 4], [1, 2], [11, 12], [9, 10], [9, 10], [11, 12]]"

definition U6_full :: "real nd" where
  "U6_full = cube 2 1 [[[1], [3]], [[-5], [-7]], [[-1], [-3]], [[-1], [-3]],
                       [[-17], [-19]], [[0], [0]], [[17], [19]], [[21], [23]]]"

definition U4_full :: "real nd" where
  "U4_full = cube 2 1 [[[1], [3]], [[-5], [-7]], [[-1], [-3]], [[-1], [-3]]]"

text \<open>An operation that can only raise numpy's IndexError or ValueError.\<close>

definition np_only :: "err + 'a \<Rightarrow> bool" where
  "np_only m = (case m of Inl e \<Rightarrow> e = IndexError \<or> e = ValueError | Inr x \<Rightarrow> True)"

text \<open>
  A solver state on the half mesh \<open>d33\<close>, with the fixed core power on and the impurity
  model off, and a solver step that returns normally after it has regenerated the grid
  and reallocated the impurity fraction.
\<close>

definition s0 :: solver where
  "s0 = \<lparr>com_geometry = ''dnbot'', com_nx = 4, com_ny = 0, com_nusp = 1,
         com_nxleg = [[1, 1]], com_nxcore = [[1, 1]], com_nxomit = 3, com_isudsym = 1,
         bbb_isfixlb = 2, bbb_restart = 0, bbb_newgeo = 0, bbb_icntnunk = 1,
         bbb_ftol = 1 / 10 ^ 5, bbb_dtreal = 1, bbb_isimpon = 0, bbb_iflcore = 1,
         bbb_pcoree = 3, bbb_pcorei = 5,
         bbb_nis = U6, bbb_ups = U6, bbb_tes = F6, bbb_tis = F6, bbb_ngs = U6,
         bbb_phis = F6, bbb_kye_use = F6, bbb_kyi_use = F6, bbb_dif_use = F6,
         bbb_afracs = F6\<rparr>"

definition exmain_alloc :: "solver \<Rightarrow> bool \<times> solver" where
  "exmain_alloc s =
     (True, s\<lparr>com_nx := 2 * com_nx s - 2,
              bbb_afracs := zeros [nat (2 * com_nx s), nat (com_ny s + 2)]\<rparr>)"

text \<open>A solver step that regenerates the grid and leaves every array as it is.\<close>

definition exmain_grid :: "solver \<Rightarrow> bool \<times> solver" where
  "exmain_grid s = (True, s\<lparr>com_nx := 2 * com_nx s - 2\<rparr>)"

text \<open>The same state on the half mesh \<open>d31\<close>, whose outer half has no cell.\<close>

definition F4 :: "real nd" where
  "F4 = mat 2 [[1, 2], [3, 4], [5, 6], [7, 8]]"

definition s31 :: solver where
  "s31 = s0\<lparr>com_nx := 2, com_nxleg := [[1, 0]], com_nxcore := [[1, 0]],
            bbb_nis := U4, bbb_ups := U4, bbb_tes := F4, bbb_tis := F4, bbb_ngs := U4,
            bbb_phis := F4, bbb_kye_use := F4, bbb_kyi_use := F4, bbb_dif_use := F4,
            bbb_afracs := F4\<rparr>"

section \<open>Array lemmas\<close>

lemma fits_refl: "fits sh sh"
  by (simp add: fits_def list_all2_same)

lemma those_map_id: "list_all (\<lambda>x. f x = Some x) xs \<Longrightarrow> those (map f xs) = Some xs"
  by (induction xs) auto

lemma broadcast_to_same: "wf_nd x \<Longrightarrow> shape x = sh \<Longrightarrow> broadcast_to sh x = Some x"
proof (induction x arbitrary: sh)
  case (Sc v)
  then show ?case by simp
next
  case (Ar s xs)
  have "list_all (\<lambda>x. broadcast_to s x = Some x) xs"
    using Ar by (auto simp: list_all_iff)
  then have "those (map (broadcast_to s) xs) = Some xs" by (rule those_map_id)
  with Ar.prems show ?case by (auto simp: fits_refl)
qed

lemma slice_bound_int: "i = int k \<Longrightarrow> k \<le> n \<Longrightarrow> slice_bound i n = k"
  by (simp add: slice_bound_def)

lemma set_rows_fit:
  assumes "slice_idx a b (length xs) = (lo, hi)" "lo \<le> hi" "length ys = hi - lo"
    "list_all (\<lambda>y. wf_nd y \<and> shape y = sh) ys"
  shows "set_rows a b (Ar sh ys) (Ar sh xs) = Inr (Ar sh (take lo xs @ ys @ drop hi xs))"
proof -
  have "list_all (\<lambda>x. broadcast_to sh x = Some x) ys"
    using assms(4) by (auto simp: list_all_iff broadcast_to_same)
  then have "those (map (broadcast_to sh) ys) = Some ys" by (rule those_map_id)
  then show ?thesis using assms(1,2,3) by (auto simp: set_rows_def fits_refl)
qed

lemma set_rows_one_to_none:
  assumes "slice_idx a b (length xs) = (lo, hi)" "hi \<le> lo" "wf_nd y" "shape y = sh"
  shows "set_rows a b (Ar sh' [y]) (Ar sh xs) = Inr (Ar sh xs)"
  using assms by (simp add: set_rows_def broadcast_to_same)

lemma zeros_wf: "wf_nd (zeros sh :: 'a::zero nd) \<and> shape (zeros sh :: 'a nd) = sh"
  by (induction sh) (auto simp: list_all_iff)

lemma take_app2: "length a + length b = k \<Longrightarrow> take k (a @ b @ c) = a @ b"
  by auto

lemma reflect_centred_closed:
  fixes xs :: "'a::zero nd list"
  assumes h: "1 \<le> h" and o: "1 \<le> o'" and len: "length xs = h + o'"
    and wf: "list_all (\<lambda>y. wf_nd y \<and> shape y = sh) xs"
    and d: "half_inner d = int h" "half_outer d = int o'" "half_nx d = int h + int o' - 2"
    and rk: "sh = m # sh'"
  shows "reflect_centred d (Ar sh xs) = Inr (Ar sh (centred_rows h xs))"
proof -
  let ?z = "zeros sh :: 'a nd"
  let ?n = "2 * h + 2 * o' - 4"
  have n: "nat (2 * half_nx d) = ?n" using h o d by simp
  have nn: "\<not> 2 * half_nx d < 0" using h o d by simp
  have wft: "\<And>k. list_all (\<lambda>y. wf_nd y \<and> shape y = sh) (take k xs)"
       "\<And>k. list_all (\<lambda>y. wf_nd y \<and> shape y = sh) (drop k xs)"
       "\<And>k. list_all (\<lambda>y. wf_nd y \<and> shape y = sh) (rev (take k xs))"
       "\<And>k. list_all (\<lambda>y. wf_nd y \<and> shape y = sh) (rev (drop k xs))"
    using wf by (auto simp: list_all_iff dest: in_set_takeD in_set_dropD)
  have g1: "get_rows None (Some (half_inner d)) (Ar sh xs) = Inr (Ar sh (take h xs))"
    using len d by (simp add: rk get_rows_def slice_idx_def slice_bound_def)
  have g2: "get_rows None (Some (half_inner d - 1)) (Ar sh xs) = Inr (Ar sh (take (h - 1) xs))"
    using len d h by (simp add: rk get_rows_def slice_idx_def slice_bound_def nat_diff_distrib')
  have g3: "get_rows (Some (half_inner d + 1)) None (Ar sh xs) = Inr (Ar sh (drop (h + 1) xs))"
    using len d h o by (simp add: rk get_rows_def slice_idx_def slice_bound_def nat_add_distrib)
  define Z where "Z = replicate ?n ?z"
  have lz: "length Z = ?n" by (simp add: Z_def)
  have i2: "slice_idx (Some (half_inner d - 1)) (Some (2 * half_inner d - 2)) ?n = (h - 1, 2 * h - 2)"
    unfolding slice_idx_def using h o d by (auto intro!: slice_bound_int)
  have i3: "slice_idx (Some (full_inner d + half_outer d - 1)) None ?n = (2 * h + o' - 3, ?n)"
    unfolding slice_idx_def full_inner_def using h o d by (auto intro!: slice_bound_int)
  have i4: "slice_idx (Some (full_inner d)) (Some (full_inner d + half_outer d - 1)) ?n = (2 * h - 2, 2 * h + o' - 3)"
    unfolding slice_idx_def full_inner_def using h o d by (auto intro!: slice_bound_int)
  define X1 where "X1 = (if h = 1 \<and> o' = 1 then [] else take h xs @ drop h Z)"
  define X2 where "X2 = take (h - 1) X1 @ rev (take (h - 1) xs) @ drop (2 * h - 2) X1"
  define X3 where "X3 = take (2 * h + o' - 3) X2 @ drop (h + 1) xs"
  define X4 where "X4 = take (2 * h - 2) X3 @ rev (drop (h + 1) xs) @ drop (2 * h + o' - 3) X3"
  have l1: "length X1 = ?n" using len h o by (auto simp add: X1_def lz)
  have l2: "length X2 = ?n" using len h o by (simp add: X2_def l1)
  have l3: "length X3 = ?n" using len h o by (simp add: X3_def l2)
  have s1: "set_rows None (Some (half_inner d)) (Ar sh (take h xs)) (Ar sh Z) = Inr (Ar sh X1)"
  proof (cases "h = 1 \<and> o' = 1")
    case True
    then have e: "h = 1" "o' = 1" by auto
    then obtain a b where xs: "xs = [a, b]" using len
      by (cases xs; simp) (metis length_0_conv length_Suc_conv)
    have Z0: "Z = []" by (simp add: Z_def e)
    have "slice_idx None (Some (half_inner d)) (length Z) = (0, 0)"
      by (simp add: slice_idx_def slice_bound_def Z0 d e)
    from set_rows_one_to_none[OF this, of a sh sh] wf show ?thesis
      by (simp add: xs e X1_def Z0)
  next
    case False
    then have big: "h \<le> ?n" using h o by arith
    have "slice_idx None (Some (half_inner d)) (length Z) = (0, h)"
      unfolding slice_idx_def using big d lz by (auto intro!: slice_bound_int)
    from set_rows_fit[OF this, of "take h xs" sh] wft len
    have "set_rows None (Some (half_inner d)) (Ar sh (take h xs)) (Ar sh Z) = Inr (Ar sh (take h xs @ drop h Z))"
      by simp
    moreover have "X1 = take h xs @ drop h Z" using False by (auto simp: X1_def)
    ultimately show ?thesis by simp
  qed
  have s2: "set_rows (Some (half_inner d - 1)) (Some (2 * half_inner d - 2)) (Ar sh (rev (take (h - 1) xs))) (Ar sh X1) = Inr (Ar sh X2)"
    using set_rows_fit[of "Some (half_inner d - 1)" "Some (2 * half_inner d - 2)" X1 "h - 1" "2 * h - 2" "rev (take (h - 1) xs)" sh] i2 wft len h
    by (simp add: l1 X2_def)
  have s3: "set_rows (Some (full_inner d + half_outer d - 1)) None (Ar sh (drop (h + 1) xs)) (Ar sh X2) = Inr (Ar sh X3)"
    using set_rows_fit[of "Some (full_inner d + half_outer d - 1)" None X2 "2 * h + o' - 3" ?n "drop (h + 1) xs" sh] i3 wft len h o
    by (simp add: l2 X3_def)
  have s4: "set_rows (Some (full_inner d)) (Some (full_inner d + half_outer d - 1)) (Ar sh (rev (drop (h + 1) xs))) (Ar sh X3) = Inr (Ar sh X4)"
    using set_rows_fit[of "Some (full_inner d)" "Some (full_inner d + half_outer d - 1)" X3 "2 * h - 2" "2 * h + o' - 3" "rev (drop (h + 1) xs)" sh] i4 wft len h o
    by (simp add: l3 X4_def)
  have t1: "take (h - 1) X1 = take (h - 1) xs"
    using len h by (auto simp: X1_def)
  have "length (take (h - 1) xs) + length (rev (take (h - 1) xs)) = 2 * h - 2"
    using len h by simp
  then have t2: "take (2 * h - 2) X2 = take (h - 1) xs @ rev (take (h - 1) xs)"
    unfolding X2_def t1 by (rule take_app2)
  have t3: "take (2 * h - 2) X3 = take (2 * h - 2) X2"
    using len h o by (simp add: X3_def l2)
  have t4: "drop (2 * h + o' - 3) X3 = drop (h + 1) xs"
    using len h o by (simp add: X3_def l2)
  have X4: "X4 = centred_rows h xs"
    by (simp add: X4_def t2 t3 t4 centred_rows_def)
  show ?thesis
    unfolding reflect_centred_def
    by (simp only: nn if_False g1 g2 g3 ebind_def sum.case rev_rows.simps shape.simps list.sel
          zeros.simps rk[symmetric] n Z_def[symmetric] s1 s2 s3 s4 X4)
qed

lemma ebind_Inr: "ebind m f = Inr y \<Longrightarrow> \<exists>x. m = Inr x \<and> f x = Inr y"
  by (cases m) (simp_all add: ebind_def)

lemma those_Some: "those xs = Some ys \<Longrightarrow> xs = map Some ys"
  by (induction xs arbitrary: ys) (auto split: option.splits)

lemma broadcast_to_wf: "broadcast_to sh x = Some y \<Longrightarrow> wf_nd y \<and> shape y = sh"
proof (induction sh x arbitrary: y rule: broadcast_to.induct)
  case (1 v)
  then show ?case by auto
next
  case (2 n sh sh' xs)
  show ?case
  proof (cases "xs = []")
    case True
    with 2(3) show ?thesis by (auto split: if_splits)
  next
    case ne: False
    show ?thesis
    proof (cases "length xs = n")
      case True
      with 2(3) ne obtain ys where ys: "those (map (broadcast_to sh) xs) = Some ys" "y = Ar sh ys"
        by auto
      from ys(1) have m: "map (broadcast_to sh) xs = map Some ys" by (rule those_Some)
      then have len: "length ys = length xs" by (metis length_map)
      have "\<forall>i < length ys. wf_nd (ys ! i) \<and> shape (ys ! i) = sh"
      proof (intro allI impI)
        fix i assume i: "i < length ys"
        then have "broadcast_to sh (xs ! i) = Some (ys ! i)"
          using m len by (metis nth_map)
        moreover have "xs ! i \<in> set xs" using i len by simp
        ultimately show "wf_nd (ys ! i) \<and> shape (ys ! i) = sh"
          using 2(1)[OF ne True] by blast
      qed
      then show ?thesis using ys(2) len True by (auto simp: list_all_length)
    next
      case False
      with 2(3) ne have l1: "length xs = 1" by (auto split: if_splits)
      with 2(3) False ne obtain z where
        z: "broadcast_to sh (hd xs) = Some z" "y = Ar sh (replicate n z)"
        by auto
      from 2(2)[OF ne False l1 z(1)] z(2) show ?thesis by (auto simp: list_all_iff)
    qed
  qed
qed auto

lemma slice_bound_le: "slice_bound i n \<le> n"
  unfolding slice_bound_def by auto

lemma set_rows_wf:
  assumes "wf_nd full" "set_rows a b src full = Inr f"
  shows "wf_nd f \<and> shape f = shape full"
proof -
  from assms(2) obtain sh xs where full: "full = Ar sh xs"
    by (cases full) (auto simp: set_rows_def)
  obtain lo hi where si: "slice_idx a b (length xs) = (lo, hi)" by (cases "slice_idx a b (length xs)")
  have bounds: "lo \<le> length xs" "hi \<le> length xs"
    using si by (auto simp: slice_idx_def slice_bound_le split: option.splits)
  from assms(2) full si obtain sh' ys where
    b: "broadcast_to ((hi - lo) # sh) src = Some (Ar sh' ys)"
    and f: "f = Ar sh (take lo xs @ ys @ drop (lo + (hi - lo)) xs)"
    by (auto simp: set_rows_def split: option.splits nd.splits)
  from broadcast_to_wf[OF b] have ys: "list_all (\<lambda>x. wf_nd x \<and> shape x = sh) ys" "length ys = hi - lo"
    by auto
  have "length (take lo xs @ ys @ drop (lo + (hi - lo)) xs) = length xs"
    using bounds ys(2) by auto
  moreover have "list_all (\<lambda>x. wf_nd x \<and> shape x = sh) (take lo xs @ ys @ drop (lo + (hi - lo)) xs)"
    using assms(1) ys(1) full by (auto simp: list_all_iff dest: in_set_takeD in_set_dropD)
  ultimately show ?thesis using f full by simp
qed

lemma set_row_wf:
  assumes "wf_nd x" "set_row i r x = Inr f"
  shows "wf_nd f \<and> shape f = shape x"
proof -
  from assms(2) obtain sh xs where x: "x = Ar sh xs"
    by (cases x) (auto simp: set_row_def)
  from assms(2) x obtain k r' where k: "py_index i (length xs) = Some k"
    and r': "broadcast_to sh r = Some r'" and f: "f = Ar sh (xs[k := r'])"
    by (auto simp: set_row_def split: option.splits)
  from broadcast_to_wf[OF r'] assms(1) x f show ?thesis
    by (auto simp: list_all_iff dest!: set_update_subset_insert[THEN subsetD])
qed

lemma reflect_centred_shape:
  assumes "reflect_centred d F = Inr out"
  shows "wf_nd out \<and> shape out = nat (2 * half_nx d) # tl (shape F)"
proof -
  let ?Z = "zeros (nat (2 * half_nx d) # tl (shape F)) :: 'a nd"
  have z: "wf_nd ?Z" "shape ?Z = nat (2 * half_nx d) # tl (shape F)"
    using zeros_wf[of "nat (2 * half_nx d) # tl (shape F)"] by auto
  from assms obtain r1 f1 r2 f2 r3 f3 r4 where
    "set_rows None (Some (half_inner d)) r1 ?Z = Inr f1"
    "set_rows (Some (half_inner d - 1)) (Some (2 * half_inner d - 2)) (rev_rows r2) f1 = Inr f2"
    "set_rows (Some (full_inner d + half_outer d - 1)) None r3 f2 = Inr f3"
    "set_rows (Some (full_inner d)) (Some (full_inner d + half_outer d - 1)) (rev_rows r4) f3 = Inr out"
    unfolding reflect_centred_def by (auto split: if_splits dest!: ebind_Inr)
  then show ?thesis using z by (metis set_rows_wf)
qed

lemma upto_axis_wf:
  "wf_nd x \<Longrightarrow> d < length (shape x) \<Longrightarrow>
   wf_nd (upto_axis d k x) \<and> shape (upto_axis d k x) = (shape x)[d := slice_bound k (shape x ! d)]"
proof (induction d arbitrary: x)
  case 0
  then obtain sh xs where x: "x = Ar sh xs" by (cases x) auto
  with 0 show ?case
    by (auto simp: list_all_iff slice_bound_le min_absorb2 dest: in_set_takeD)
next
  case (Suc d)
  then obtain sh xs where x: "x = Ar sh xs" by (cases x) auto
  with Suc.prems have d: "d < length sh" by simp
  have "\<forall>y\<in>set xs. wf_nd (upto_axis d k y) \<and> shape (upto_axis d k y) = sh[d := slice_bound k (sh ! d)]"
    using Suc.IH Suc.prems(1) x d by (auto simp: list_all_iff)
  then show ?case using x d by (auto simp: list_all_iff)
qed

lemma map_nd_wf: "wf_nd x \<Longrightarrow> wf_nd (map_nd f x) \<and> shape (map_nd f x) = shape x"
  by (induction x) (auto simp: list_all_iff)

lemma set_upto_axis: "set_nd (upto_axis d k x) \<subseteq> set_nd x"
proof (induction d k x rule: upto_axis.induct)
  case (2 k sh xs)
  show ?case by (auto dest: in_set_takeD)
qed auto

lemma drop_take_Suc: "k < length xs \<Longrightarrow> drop k (take (Suc k) xs) = [xs ! k]"
proof (induction xs arbitrary: k)
  case Nil
  then show ?case by simp
next
  case (Cons a xs)
  then show ?case by (cases k) simp_all
qed

lemma get_rows3_closed:
  assumes "0 \<le> nusp" "nat nusp \<le> K" "slice_idx a b (length xs) = (lo, hi)"
  shows "get_rows3 a b nusp (Ar [M, K] xs) =
         Inr (Ar [M, nat nusp] (take (hi - lo) (drop lo (map (upto_axis 1 nusp) xs))))"
proof -
  have "slice_bound nusp K = nat nusp" using assms(1,2) by (auto simp: slice_bound_def)
  then show ?thesis
    using assms(3) by (simp add: get_rows3_def numeral_2_eq_2 take_map drop_map)
qed

lemma neg_Ar: "neg (Ar sh ys) = Ar sh (map neg ys)"
  by (simp add: neg_def)

lemma neg_wf: "wf_nd x \<Longrightarrow> wf_nd (neg x) \<and> shape (neg x) = shape x"
  unfolding neg_def by (rule map_nd_wf)

lemma nth_app3: "length a + length b = m \<Longrightarrow> m \<le> k \<Longrightarrow> (a @ b @ c) ! k = c ! (k - m)"
  by (auto simp: nth_append)

lemma upss_segments_closed:
  fixes xs :: "'a::{zero,uminus} nd list"
  assumes h: "2 \<le> h" and o: "1 \<le> o'" and len: "length xs = h + o'"
    and wf: "list_all (\<lambda>y. wf_nd y \<and> shape y = [M, K]) xs"
    and d: "half_inner d = int h" "half_outer d = int o'" "half_nx d = int h + int o' - 2"
      "half_ny d + 2 = int M"
    and k: "0 \<le> nusp" "nat nusp \<le> K"
  shows "\<exists>w. upss_segments d nusp (Ar [M, K] xs) =
              Inr (Ar [M, nat nusp] (stag_rows h w (map (upto_axis 1 nusp) xs))) \<and>
             (2 \<le> o' \<longrightarrow> w = zeros [M, nat nusp])"
proof -
  define U where "U = map (upto_axis 1 nusp) xs"
  define sh where "sh = [M, nat nusp]"
  let ?z = "zeros sh :: 'a nd"
  let ?n = "2 * h + 2 * o' - 4"
  have lU: "length U = h + o'" by (simp add: U_def len)
  have sb: "slice_bound nusp K = nat nusp" using k by (auto simp: slice_bound_def)
  have wfU: "list_all (\<lambda>y. wf_nd y \<and> shape y = sh) U"
    unfolding U_def sh_def list_all_iff
  proof
    fix y assume "y \<in> set (map (upto_axis 1 nusp) xs)"
    then obtain x where x: "x \<in> set xs" "y = upto_axis 1 nusp x" by auto
    with wf have "wf_nd x" "shape x = [M, K]" by (auto simp: list_all_iff)
    with upto_axis_wf[of x 1 nusp] sb x(2) show "wf_nd y \<and> shape y = [M, nat nusp]"
      by simp
  qed
  have n: "nat (2 * half_nx d) = ?n" "nat (half_ny d + 2) = M" using h o d by simp_all
  have nn: "\<not> (2 * half_nx d < 0 \<or> half_ny d + 2 < 0 \<or> nusp < 0)" using h o d k by simp
  have wft: "\<And>k. list_all (\<lambda>y. wf_nd y \<and> shape y = sh) (take k U)"
       "\<And>k. list_all (\<lambda>y. wf_nd y \<and> shape y = sh) (drop k U)"
       "\<And>k. list_all (\<lambda>y. wf_nd y \<and> shape y = sh) (map neg (rev (take k U)))"
       "\<And>k. list_all (\<lambda>y. wf_nd y \<and> shape y = sh) (map neg (rev (drop k U)))"
    using wfU neg_wf by (auto simp: list_all_iff dest!: in_set_takeD in_set_dropD)
  have g1: "get_rows3 None (Some (half_inner d)) nusp (Ar [M, K] xs) = Inr (Ar sh (take h U))"
    using get_rows3_closed[OF k, of None "Some (half_inner d)" xs 0 h M] len d
    by (simp add: slice_idx_def slice_bound_def U_def sh_def)
  have g2: "get_rows3 None (Some (half_inner d - 1)) nusp (Ar [M, K] xs) = Inr (Ar sh (take (h - 1) U))"
    using get_rows3_closed[OF k, of None "Some (half_inner d - 1)" xs 0 "h - 1" M] len d h
    by (simp add: slice_idx_def slice_bound_def U_def sh_def nat_diff_distrib')
  have g3: "get_rows3 (Some (half_inner d + 1)) None nusp (Ar [M, K] xs) = Inr (Ar sh (drop (h + 1) U))"
    using get_rows3_closed[OF k, of "Some (half_inner d + 1)" None xs "h + 1" "h + o'" M] len d h o
    by (simp add: slice_idx_def slice_bound_def U_def sh_def nat_add_distrib)
  define Z where "Z = replicate ?n ?z"
  have lz: "length Z = ?n" by (simp add: Z_def)
  have i1: "slice_idx None (Some (half_inner d)) ?n = (0, h)"
    unfolding slice_idx_def using h o d by (auto intro!: slice_bound_int)
  have i2: "slice_idx (Some (half_inner d - 2)) (Some (2 * half_inner d - 3)) ?n = (h - 2, 2 * h - 3)"
    unfolding slice_idx_def using h o d by (auto intro!: slice_bound_int)
  have i3: "slice_idx (Some (full_inner d + half_outer d - 1)) None ?n = (2 * h + o' - 3, ?n)"
    unfolding slice_idx_def full_inner_def using h o d by (auto intro!: slice_bound_int)
  have i4: "slice_idx (Some (full_inner d - 1)) (Some (full_inner d + half_outer d - 2)) ?n = (2 * h - 3, 2 * h + o' - 4)"
    unfolding slice_idx_def full_inner_def using h o d by (auto intro!: slice_bound_int)
  define X1 where "X1 = take h U @ drop h Z"
  define X2 where "X2 = take (h - 2) X1 @ map neg (rev (take (h - 1) U)) @ drop (2 * h - 3) X1"
  define X3 where "X3 = take (2 * h + o' - 3) X2 @ drop (h + 1) U"
  define X4 where "X4 = take (2 * h - 3) X3 @ map neg (rev (drop (h + 1) U)) @ drop (2 * h + o' - 4) X3"
  have l1: "length X1 = ?n" using lU h o by (auto simp add: X1_def lz)
  have l2: "length X2 = ?n" using lU h o by (simp add: X2_def l1)
  have l3: "length X3 = ?n" using lU h o by (simp add: X3_def l2)
  have s1: "set_rows None (Some (half_inner d)) (Ar sh (take h U)) (Ar sh Z) = Inr (Ar sh X1)"
    using set_rows_fit[of None "Some (half_inner d)" Z 0 h "take h U" sh] i1 wft lU
    by (simp add: lz X1_def)
  have s2: "set_rows (Some (half_inner d - 2)) (Some (2 * half_inner d - 3)) (Ar sh (map neg (rev (take (h - 1) U)))) (Ar sh X1) = Inr (Ar sh X2)"
    using set_rows_fit[of "Some (half_inner d - 2)" "Some (2 * half_inner d - 3)" X1 "h - 2" "2 * h - 3" "map neg (rev (take (h - 1) U))" sh] i2 wft lU h
    by (simp add: l1 X2_def)
  have s3: "set_rows (Some (full_inner d + half_outer d - 1)) None (Ar sh (drop (h + 1) U)) (Ar sh X2) = Inr (Ar sh X3)"
    using set_rows_fit[of "Some (full_inner d + half_outer d - 1)" None X2 "2 * h + o' - 3" ?n "drop (h + 1) U" sh] i3 wft lU h o
    by (simp add: l2 X3_def)
  have s4: "set_rows (Some (full_inner d - 1)) (Some (full_inner d + half_outer d - 2)) (Ar sh (map neg (rev (drop (h + 1) U)))) (Ar sh X3) = Inr (Ar sh X4)"
    using set_rows_fit[of "Some (full_inner d - 1)" "Some (full_inner d + half_outer d - 2)" X3 "2 * h - 3" "2 * h + o' - 4" "map neg (rev (drop (h + 1) U))" sh] i4 wft lU h o
    by (simp add: l3 X4_def)
  define w where "w = X1 ! (2 * h + o' - 4)"
  have t1: "take (h - 2) X1 = take (h - 2) U" using lU h by (simp add: X1_def)
  have "length (take (h - 2) U) + length (map neg (rev (take (h - 1) U))) = 2 * h - 3"
    using lU h by simp
  then have t2: "take (2 * h - 3) X2 = take (h - 2) U @ map neg (rev (take (h - 1) U))"
    unfolding X2_def t1 by (rule take_app2)
  have t3: "take (2 * h - 3) X3 = take (2 * h - 3) X2"
    using lU h o by (simp add: X3_def l2)
  have "2 * h + o' - 4 < length X2" using l2 h o by simp
  then have "drop (2 * h + o' - 4) (take (Suc (2 * h + o' - 4)) X2) = [X2 ! (2 * h + o' - 4)]"
    by (rule drop_take_Suc)
  moreover have "Suc (2 * h + o' - 4) = 2 * h + o' - 3" using h o by simp
  moreover have "X2 ! (2 * h + o' - 4) = w"
  proof -
    have a: "length (take (h - 2) X1) + length (map neg (rev (take (h - 1) U))) = 2 * h - 3"
      using lU l1 h o by simp
    have b: "2 * h - 3 \<le> 2 * h + o' - 4" using h o by simp
    have "X2 ! (2 * h + o' - 4) = drop (2 * h - 3) X1 ! (2 * h + o' - 4 - (2 * h - 3))"
      unfolding X2_def by (rule nth_app3[OF a b])
    also have "\<dots> = X1 ! (2 * h - 3 + (2 * h + o' - 4 - (2 * h - 3)))"
      using l1 h o by (intro nth_drop) simp
    also have "2 * h - 3 + (2 * h + o' - 4 - (2 * h - 3)) = 2 * h + o' - 4" using h o by simp
    finally show ?thesis by (simp add: w_def)
  qed
  ultimately have t4: "drop (2 * h + o' - 4) X3 = [w] @ drop (h + 1) U"
    using l2 h o by (simp add: X3_def)
  have X4: "X4 = stag_rows h w U"
    by (simp add: X4_def t2 t3 t4 stag_rows_def)
  have wz: "2 \<le> o' \<longrightarrow> w = zeros [M, nat nusp]"
    using lU h by (auto simp: w_def X1_def nth_append Z_def sh_def)
  have "upss_segments d nusp (Ar [M, K] xs) = Inr (Ar sh X4)"
    unfolding upss_segments_def
    by (simp only: nn if_False g1 g2 g3 ebind_def sum.case rev_rows.simps neg_Ar
          zeros.simps n sh_def[symmetric] Z_def[symmetric] s1 s2 s3 s4 rev_map)
  then show ?thesis using wz X4 by (auto simp: sh_def U_def)
qed

lemma consistentE:
  assumes "consistent d F"
  obtains h o' sh xs m sh' where "F = Ar sh xs" "sh = m # sh'" "1 \<le> h" "1 \<le> o'"
    "length xs = h + o'" "list_all (\<lambda>y. wf_nd y \<and> shape y = sh) xs"
    "half_inner d = int h" "half_outer d = int o'" "half_nx d = int h + int o' - 2"
proof -
  from assms obtain sh xs where F: "F = Ar sh xs"
    by (cases F) (auto simp: consistent_def)
  with assms obtain m sh' where sh: "sh = m # sh'"
    by (cases sh) (auto simp: consistent_def)
  define h where "h = nat (half_inner d)"
  define o' where "o' = nat (half_outer d)"
  have "1 \<le> h" "1 \<le> o'" "half_inner d = int h" "half_outer d = int o'"
    using assms by (auto simp: consistent_def h_def o'_def)
  moreover have "length xs = h + o'" "half_nx d = int h + int o' - 2"
    using assms F by (auto simp: consistent_def h_def o'_def)
  moreover have "list_all (\<lambda>y. wf_nd y \<and> shape y = sh) xs"
    using assms F by (simp add: consistent_def)
  ultimately show ?thesis using that F sh by blast
qed

lemma get_rows_nat:
  assumes "sh = m # sh'" "slice_idx a b (length xs) = (lo, hi)"
  shows "get_rows a b (Ar sh xs) = Inr (Ar sh (take (hi - lo) (drop lo xs)))"
  using assms by (simp add: get_rows_def)

lemma slice_mid: "length a = lo \<Longrightarrow> length b = k \<Longrightarrow> take k (drop lo (a @ b @ c)) = b"
  by simp

lemma upss_segments_shape:
  assumes "upss_segments d nusp ups = Inr u"
  shows "wf_nd u \<and> shape u = [nat (2 * half_nx d), nat (half_ny d + 2), nat nusp]"
proof -
  let ?Z = "zeros [nat (2 * half_nx d), nat (half_ny d + 2), nat nusp] :: 'a nd"
  have z: "wf_nd ?Z" "shape ?Z = [nat (2 * half_nx d), nat (half_ny d + 2), nat nusp]"
    using zeros_wf[of "[nat (2 * half_nx d), nat (half_ny d + 2), nat nusp]"] by auto
  from assms obtain r1 u1 r2 u2 r3 u3 r4 where
    "set_rows None (Some (half_inner d)) r1 ?Z = Inr u1"
    "set_rows (Some (half_inner d - 2)) (Some (2 * half_inner d - 3)) (neg (rev_rows r2)) u1 = Inr u2"
    "set_rows (Some (full_inner d + half_outer d - 1)) None r3 u2 = Inr u3"
    "set_rows (Some (full_inner d - 1)) (Some (full_inner d + half_outer d - 2)) (neg (rev_rows r4)) u3 = Inr u"
    unfolding upss_segments_def by (auto split: if_splits dest!: ebind_Inr)
  then show ?thesis using z by (metis set_rows_wf)
qed

lemma py_index_less: "py_index i n = Some k \<Longrightarrow> k < n"
  by (auto simp: py_index_def split: if_splits)

lemma py_index_odd_pred:
  assumes "py_index (2 * h - 3) n = Some k" "py_index (2 * h - 4) n = Some k'"
  shows "k \<noteq> k'"
proof (cases "2 \<le> h")
  case True
  then have "0 \<le> 2 * h - 4" "0 \<le> 2 * h - 3" by simp_all
  with assms have "k = nat (2 * h - 3)" "k' = nat (2 * h - 4)"
    by (auto simp: py_index_def split: if_splits)
  with True show ?thesis by simp
next
  case False
  then have "2 * h - 4 < 0" "2 * h - 3 < 0" by simp_all
  with assms have "k = nat (2 * h - 3 + int n)" "k' = nat (2 * h - 4 + int n)" "- int n \<le> 2 * h - 4"
    by (auto simp: py_index_def split: if_splits)
  then show ?thesis by simp
qed

lemma upss_of_boundary:
  assumes "upss_of d nusp ups = Inr out"
  shows "\<exists>u r. upss_segments d nusp ups = Inr u \<and>
           get_row (2 * half_inner d - 4) u = Inr r \<and>
           set_row (2 * half_inner d - 3) r u = Inr out \<and>
           get_row (2 * half_inner d - 3) out = Inr r \<and>
           get_row (2 * half_inner d - 4) out = Inr r"
proof -
  from assms obtain u r where u: "upss_segments d nusp ups = Inr u"
    and r: "get_row (2 * half_inner d - 4) u = Inr r"
    and s: "set_row (2 * half_inner d - 3) r u = Inr out"
    unfolding upss_of_def by (auto dest!: ebind_Inr)
  from upss_segments_shape[OF u] have wfu: "wf_nd u" by simp
  from r obtain sh xs where ux: "u = Ar sh xs" by (cases u) (auto simp: get_row_def)
  from r ux obtain k' where k': "py_index (2 * half_inner d - 4) (length xs) = Some k'" "r = xs ! k'"
    by (auto simp: get_row_def split: option.splits)
  from s ux obtain k r' where k: "py_index (2 * half_inner d - 3) (length xs) = Some k"
    and r': "broadcast_to sh r = Some r'" and out: "out = Ar sh (xs[k := r'])"
    by (auto simp: set_row_def split: option.splits)
  have kl: "k < length xs" "k' < length xs" using k k'(1) by (auto dest: py_index_less)
  have ne: "k \<noteq> k'" using k k'(1) by (rule py_index_odd_pred)
  have "wf_nd r \<and> shape r = sh" using wfu ux k'(2) kl(2) by (auto simp: list_all_length)
  then have "broadcast_to sh r = Some r" by (simp add: broadcast_to_same)
  with r' have rr: "r' = r" by simp
  have "get_row (2 * half_inner d - 3) out = Inr r"
    using k kl by (simp add: get_row_def out rr)
  moreover have "get_row (2 * half_inner d - 4) out = Inr r"
    using k' kl ne by (simp add: get_row_def out rr)
  ultimately show ?thesis using u r s by blast
qed

lemma upss_of_shape:
  assumes "upss_of d nusp ups = Inr out"
  shows "wf_nd out \<and> shape out = [nat (2 * half_nx d), nat (half_ny d + 2), nat nusp]"
proof -
  from upss_of_boundary[OF assms] obtain u r where u: "upss_segments d nusp ups = Inr u"
    and s: "set_row (2 * half_inner d - 3) r u = Inr out" by blast
  from upss_segments_shape[OF u] set_row_wf[OF _ s] show ?thesis by simp
qed

lemma consistent_upsE:
  assumes "consistent_ups d nusp ups"
  obtains h o' xs M K where "ups = Ar [M, K] xs" "2 \<le> h" "1 \<le> o'"
    "length xs = h + o'" "list_all (\<lambda>y. wf_nd y \<and> shape y = [M, K]) xs"
    "half_inner d = int h" "half_outer d = int o'" "half_nx d = int h + int o' - 2"
    "half_ny d + 2 = int M" "0 \<le> nusp" "nat nusp \<le> K"
proof -
  from assms obtain sh xs where F: "ups = Ar sh xs"
    by (cases ups) (auto simp: consistent_ups_def)
  with assms have "length sh = 2" by (simp add: consistent_ups_def)
  then obtain M K where sh: "sh = [M, K]"
    by (cases sh; simp) (metis Suc_length_conv length_0_conv)
  define h where "h = nat (half_inner d)"
  define o' where "o' = nat (half_outer d)"
  have "2 \<le> h" "1 \<le> o'" "half_inner d = int h" "half_outer d = int o'"
    using assms by (auto simp: consistent_ups_def h_def o'_def)
  moreover have "length xs = h + o'" "half_nx d = int h + int o' - 2"
    "half_ny d + 2 = int M" "0 \<le> nusp" "nat nusp \<le> K"
    using assms F sh by (auto simp: consistent_ups_def h_def o'_def)
  moreover have "list_all (\<lambda>y. wf_nd y \<and> shape y = [M, K]) xs"
    using assms F sh by (simp add: consistent_ups_def)
  ultimately show ?thesis using that F sh by blast
qed

lemma nth_app_mid:
  "length a = m \<Longrightarrow> m \<le> k \<Longrightarrow> k - m < length b \<Longrightarrow> (a @ b @ c) ! k = b ! (k - m)"
  by (auto simp: nth_append)

lemma update_at_length: "length a = m \<Longrightarrow> (a @ b)[m := x] = a @ b[0 := x]"
  by (simp add: list_update_append)

lemma update_head_app: "a \<noteq> [] \<Longrightarrow> (a @ b)[0 := x] = a[0 := x] @ b"
  by (cases a) simp_all

lemma upss_of_closed:
  fixes xs :: "'a::{zero,uminus} nd list"
  assumes h: "2 \<le> h" and o: "1 \<le> o'" and len: "length xs = h + o'"
    and wf: "list_all (\<lambda>y. wf_nd y \<and> shape y = [M, K]) xs"
    and d: "half_inner d = int h" "half_outer d = int o'" "half_nx d = int h + int o' - 2"
      "half_ny d + 2 = int M"
    and k: "0 \<le> nusp" "nat nusp \<le> K"
  shows "\<exists>w. upss_of d nusp (Ar [M, K] xs) =
              Inr (Ar [M, nat nusp] (stag_final h w (map (upto_axis 1 nusp) xs))) \<and>
             (2 \<le> o' \<longrightarrow> w = zeros [M, nat nusp])"
proof -
  define U where "U = map (upto_axis 1 nusp) xs"
  define sh where "sh = [M, nat nusp]"
  from upss_segments_closed[OF h o len wf d k] obtain w where
    seg: "upss_segments d nusp (Ar [M, K] xs) = Inr (Ar sh (stag_rows h w U))"
    and w: "2 \<le> o' \<longrightarrow> w = zeros [M, nat nusp]"
    unfolding U_def sh_def by blast
  define P where "P = stag_rows h w U"
  define A where "A = take (h - 2) U"
  define B where "B = map neg (rev (take (h - 1) U))"
  define C where "C = map neg (rev (drop (h + 1) U))"
  define D where "D = drop (h + 1) U"
  have lU: "length U = h + o'" by (simp add: U_def len)
  have lA: "length A = h - 2" and lB: "length B = h - 1" and lC: "length C = o' - 1"
    and lD: "length D = o' - 1"
    using lU h o by (simp_all add: A_def B_def C_def D_def)
  have P: "P = A @ B @ C @ [w] @ D"
    by (simp add: P_def stag_rows_def A_def B_def C_def D_def)
  have lP: "length P = 2 * h + 2 * o' - 4" using lA lB lC lD h o by (simp add: P)
  from upss_segments_shape[OF seg] have wfP: "list_all (\<lambda>y. wf_nd y \<and> shape y = sh) P"
    by (auto simp: P_def)
  have i4: "py_index (2 * half_inner d - 4) (length P) = Some (2 * h - 4)"
    using h o d lP by (auto simp: py_index_def)
  have i3: "py_index (2 * half_inner d - 3) (length P) = Some (2 * h - 3)"
    using h o d lP by (auto simp: py_index_def)
  have "2 * h - 4 - (h - 2) = h - 2" "h - 2 \<le> 2 * h - 4" "h - 2 < length B"
    using h lB by simp_all
  then have "P ! (2 * h - 4) = B ! (h - 2)"
    unfolding P using nth_app_mid[OF lA, of "2 * h - 4" B "C @ [w] @ D"] by simp
  also have "\<dots> = neg (rev (take (h - 1) U) ! (h - 2))"
    unfolding B_def using lU h by (intro nth_map) simp
  also have "rev (take (h - 1) U) ! (h - 2) = take (h - 1) U ! 0"
    using lU h by (simp add: rev_nth)
  also have "\<dots> = U ! 0" using h by simp
  finally have r: "P ! (2 * h - 4) = neg (U ! 0)" .
  have g: "get_row (2 * half_inner d - 4) (Ar sh P) = Inr (neg (U ! 0))"
    by (simp add: get_row_def i4 r)
  have "wf_nd (P ! (2 * h - 4)) \<and> shape (P ! (2 * h - 4)) = sh"
    using wfP lP h o by (auto simp: list_all_length)
  then have b: "broadcast_to sh (neg (U ! 0)) = Some (neg (U ! 0))"
    unfolding r by (simp add: broadcast_to_same)
  have s: "set_row (2 * half_inner d - 3) (neg (U ! 0)) (Ar sh P) = Inr (Ar sh (P[2 * h - 3 := neg (U ! 0)]))"
    by (simp add: set_row_def i3 b)
  have "length (A @ B) = 2 * h - 3" using lA lB h by simp
  then have "((A @ B) @ ((C @ [w]) @ D))[2 * h - 3 := neg (U ! 0)] =
      (A @ B) @ ((C @ [w]) @ D)[0 := neg (U ! 0)]"
    by (rule update_at_length)
  moreover have "((C @ [w]) @ D)[0 := neg (U ! 0)] = (C @ [w])[0 := neg (U ! 0)] @ D"
    by (rule update_head_app) simp
  moreover have "P = (A @ B) @ ((C @ [w]) @ D)" by (simp add: P)
  ultimately have "P[2 * h - 3 := neg (U ! 0)] = (A @ B) @ (C @ [w])[0 := neg (U ! 0)] @ D"
    by (simp only:)
  then have Q: "P[2 * h - 3 := neg (U ! 0)] = stag_final h w U"
    by (simp only: stag_final_def A_def B_def C_def D_def)
  have "upss_of d nusp (Ar [M, K] xs) = Inr (Ar sh (stag_final h w U))"
    unfolding upss_of_def seg P_def[symmetric] by (simp add: ebind_def g s Q)
  with w show ?thesis unfolding U_def sh_def by blast
qed

lemma all_nd_set: "all_nd P x \<longleftrightarrow> (\<forall>v\<in>set_nd x. P v)"
  by (induction x) (auto simp: list_all_iff)

lemma pred_upto_axis: "all_nd P x \<Longrightarrow> all_nd P (upto_axis d k x)"
  using set_upto_axis[of d k x] by (auto simp: all_nd_set)

lemma all_pos_Ar: "all_pos (Ar sh xs) = list_all all_pos xs"
  by (simp add: all_pos_def list_all_iff)

lemma all_neg_Ar: "all_neg (Ar sh xs) = list_all all_neg xs"
  by (simp add: all_neg_def list_all_iff)

lemma all_neg_neg: "all_pos (x :: 'a::ordered_ab_group_add nd) \<Longrightarrow> all_neg (neg x)"
  by (auto simp: all_pos_def all_neg_def neg_def all_nd_set nd.set_map)

lemma staggered_signs_aux:
  fixes ups :: "'a::ordered_ab_group_add nd"
  assumes c: "consistent_ups d nusp ups" and pos: "all_pos ups"
  shows "\<exists>out r2 m1 m2 l1 l2.
     upss_of d nusp ups = Inr out \<and>
     get_rows3 None (Some (half_inner d - 1)) nusp ups = Inr r2 \<and>
     get_rows (Some (half_inner d - 2)) (Some (2 * half_inner d - 3)) out = Inr m1 \<and>
     m1 = neg (rev_rows r2) \<and> all_neg m1 \<and>
     get_rows (Some (full_inner d - 1)) (Some (full_inner d + half_outer d - 2)) out = Inr m2 \<and>
     all_neg m2 \<and>
     get_rows None (Some (half_inner d - 2)) out = Inr l1 \<and>
     get_rows3 None (Some (half_inner d - 2)) nusp ups = Inr l1 \<and> all_pos l1 \<and>
     get_rows (Some (full_inner d + half_outer d - 1)) None out = Inr l2 \<and>
     get_rows3 (Some (half_inner d + 1)) None nusp ups = Inr l2 \<and> all_pos l2"
proof -
  from c obtain h o' xs M K where ups: "ups = Ar [M, K] xs" and h: "2 \<le> h" and o: "1 \<le> o'"
    and len: "length xs = h + o'" and wf: "list_all (\<lambda>y. wf_nd y \<and> shape y = [M, K]) xs"
    and d: "half_inner d = int h" "half_outer d = int o'" "half_nx d = int h + int o' - 2"
      "half_ny d + 2 = int M"
    and k: "0 \<le> nusp" "nat nusp \<le> K"
    by (rule consistent_upsE)
  define U where "U = map (upto_axis 1 nusp) xs"
  define sh where "sh = [M, nat nusp]"
  from upss_of_closed[OF h o len wf d k] obtain w where
    out: "upss_of d nusp ups = Inr (Ar sh (stag_final h w U))"
    unfolding U_def sh_def ups by blast
  define A where "A = take (h - 2) U"
  define B where "B = map neg (rev (take (h - 1) U))"
  define C where "C = map neg (rev (drop (h + 1) U))"
  define D where "D = drop (h + 1) U"
  define T where "T = (C @ [w])[0 := neg (U ! 0)]"
  define Q where "Q = stag_final h w U"
  have lU: "length U = h + o'" by (simp add: U_def len)
  have lA: "length A = h - 2" and lB: "length B = h - 1" and lC: "length C = o' - 1"
    and lD: "length D = o' - 1" and lT: "length T = o'"
    using lU h o by (simp_all add: A_def B_def C_def D_def T_def)
  have Q: "Q = (A @ B) @ T @ D"
    by (simp only: Q_def stag_final_def A_def B_def C_def D_def T_def)
  have lQ: "length Q = 2 * h + 2 * o' - 4" using lA lB lT lD h o by (simp add: Q)
  have posU: "list_all all_pos U"
    using pos unfolding ups U_def all_pos_Ar by (auto simp: list_all_iff all_pos_def pred_upto_axis)
  have sh2: "sh = M # [nat nusp]" by (simp add: sh_def)
  \<comment> \<open>the source slices\<close>
  have g2: "get_rows3 None (Some (half_inner d - 1)) nusp ups = Inr (Ar sh (take (h - 1) U))"
    using get_rows3_closed[OF k, of None "Some (half_inner d - 1)" xs 0 "h - 1" M] len d h
    by (simp add: ups slice_idx_def slice_bound_int U_def sh_def)
  have g1: "get_rows3 None (Some (half_inner d - 2)) nusp ups = Inr (Ar sh A)"
    using get_rows3_closed[OF k, of None "Some (half_inner d - 2)" xs 0 "h - 2" M] len d h
    by (simp add: ups slice_idx_def slice_bound_int U_def sh_def A_def)
  have g4: "get_rows3 (Some (half_inner d + 1)) None nusp ups = Inr (Ar sh D)"
    using get_rows3_closed[OF k, of "Some (half_inner d + 1)" None xs "h + 1" "h + o'" M] len d h o
    by (simp add: ups slice_idx_def slice_bound_int U_def sh_def D_def)
  \<comment> \<open>the slices of the result\<close>
  have i1: "slice_idx None (Some (half_inner d - 2)) (length Q) = (0, h - 2)"
    unfolding slice_idx_def lQ using h o d by (auto intro!: slice_bound_int)
  have i2: "slice_idx (Some (half_inner d - 2)) (Some (2 * half_inner d - 3)) (length Q) = (h - 2, 2 * h - 3)"
    unfolding slice_idx_def lQ using h o d by (auto intro!: slice_bound_int)
  have i3: "slice_idx (Some (full_inner d - 1)) (Some (full_inner d + half_outer d - 2)) (length Q) = (2 * h - 3, 2 * h + o' - 4)"
    unfolding slice_idx_def full_inner_def lQ using h o d by (auto intro!: slice_bound_int)
  have i4: "slice_idx (Some (full_inner d + half_outer d - 1)) None (length Q) = (2 * h + o' - 3, 2 * h + 2 * o' - 4)"
    unfolding slice_idx_def full_inner_def lQ using h o d by (auto intro!: slice_bound_int)
  have q1: "take (h - 2 - 0) (drop 0 Q) = A" using lA by (simp add: Q)
  have q2: "take (2 * h - 3 - (h - 2)) (drop (h - 2) Q) = B"
    using lA lB h by (simp add: Q)
  have "take (o' - 1) (drop (2 * h - 3) Q) = take (o' - 1) T"
    using lA lB lT h by (simp add: Q)
  moreover have "2 * h + o' - 4 - (2 * h - 3) = o' - 1" using h o by simp
  moreover have "take (o' - 1) T = C[0 := neg (U ! 0)]"
    using lC by (simp add: T_def take_update_swap)
  ultimately have q3: "take (2 * h + o' - 4 - (2 * h - 3)) (drop (2 * h - 3) Q) = C[0 := neg (U ! 0)]"
    by simp
  have "drop (2 * h + o' - 3) Q = D" using lA lB lT h o by (simp add: Q)
  then have q4: "take (2 * h + 2 * o' - 4 - (2 * h + o' - 3)) (drop (2 * h + o' - 3) Q) = D"
    using lD h o by simp
  \<comment> \<open>signs\<close>
  have nB: "list_all all_neg B"
    using posU unfolding B_def by (auto simp: list_all_iff all_neg_neg dest!: in_set_takeD)
  have nC: "list_all all_neg C"
    using posU unfolding C_def by (auto simp: list_all_iff all_neg_neg dest!: in_set_dropD)
  have "all_pos (U ! 0)" using posU lU h by (auto simp: list_all_length)
  then have "all_neg (neg (U ! 0))" by (rule all_neg_neg)
  with nC have nC': "list_all all_neg (C[0 := neg (U ! 0)])"
    by (auto simp: list_all_iff dest!: set_update_subset_insert[THEN subsetD])
  have pA: "list_all all_pos A" using posU unfolding A_def by (auto simp: list_all_iff dest!: in_set_takeD)
  have pD: "list_all all_pos D" using posU unfolding D_def by (auto simp: list_all_iff dest!: in_set_dropD)
  have m1: "Ar sh B = neg (rev_rows (Ar sh (take (h - 1) U)))"
    by (simp add: neg_Ar B_def rev_map)
  have e1: "get_rows None (Some (half_inner d - 2)) (Ar sh Q) = Inr (Ar sh A)"
    using get_rows_nat[OF sh2 i1] q1 by simp
  have e2: "get_rows (Some (half_inner d - 2)) (Some (2 * half_inner d - 3)) (Ar sh Q) = Inr (Ar sh B)"
    using get_rows_nat[OF sh2 i2] q2 by simp
  have e3: "get_rows (Some (full_inner d - 1)) (Some (full_inner d + half_outer d - 2)) (Ar sh Q)
      = Inr (Ar sh (C[0 := neg (U ! 0)]))"
    using get_rows_nat[OF sh2 i3] q3 by simp
  have e4: "get_rows (Some (full_inner d + half_outer d - 1)) None (Ar sh Q) = Inr (Ar sh D)"
    using get_rows_nat[OF sh2 i4] q4 by simp
  have s1: "all_neg (Ar sh B)" "all_neg (Ar sh (C[0 := neg (U ! 0)]))"
    "all_pos (Ar sh A)" "all_pos (Ar sh D)"
    using nB nC' pA pD by (simp_all add: all_neg_Ar all_pos_Ar)
  from out[folded Q_def] g2 e2 m1 s1(1) e3 s1(2) e1 g1 s1(3) e4 g4 s1(4)
  show ?thesis by blast
qed

lemma upss_of_zero_row:
  fixes ups :: "'a::{zero,uminus} nd"
  assumes c: "consistent_ups d nusp ups" and o2: "2 \<le> half_outer d"
  shows "\<exists>out. upss_of d nusp ups = Inr out \<and>
     get_row (full_inner d + half_outer d - 2) out = Inr (zeros [nat (half_ny d + 2), nat nusp])"
proof -
  from c obtain h o' xs M K where ups: "ups = Ar [M, K] xs" and h: "2 \<le> h" and o: "1 \<le> o'"
    and len: "length xs = h + o'" and wf: "list_all (\<lambda>y. wf_nd y \<and> shape y = [M, K]) xs"
    and d: "half_inner d = int h" "half_outer d = int o'" "half_nx d = int h + int o' - 2"
      "half_ny d + 2 = int M"
    and k: "0 \<le> nusp" "nat nusp \<le> K"
    by (rule consistent_upsE)
  have o2': "2 \<le> o'" using o2 d by simp
  define U where "U = map (upto_axis 1 nusp) xs"
  define sh where "sh = [M, nat nusp]"
  from upss_of_closed[OF h o len wf d k] o2' obtain w where
    out: "upss_of d nusp ups = Inr (Ar sh (stag_final h w U))" and w: "w = zeros sh"
    unfolding U_def sh_def ups by blast
  define A where "A = take (h - 2) U"
  define B where "B = map neg (rev (take (h - 1) U))"
  define C where "C = map neg (rev (drop (h + 1) U))"
  define D where "D = drop (h + 1) U"
  define T where "T = (C @ [w])[0 := neg (U ! 0)]"
  define Q where "Q = stag_final h w U"
  have lU: "length U = h + o'" by (simp add: U_def len)
  have lA: "length A = h - 2" and lB: "length B = h - 1" and lC: "length C = o' - 1"
    and lD: "length D = o' - 1" and lT: "length T = o'"
    using lU h o by (simp_all add: A_def B_def C_def D_def T_def)
  have Q: "Q = (A @ B) @ T @ D"
    by (simp only: Q_def stag_final_def A_def B_def C_def D_def T_def)
  have lQ: "length Q = 2 * h + 2 * o' - 4" using lA lB lT lD h o by (simp add: Q)
  have i: "py_index (full_inner d + half_outer d - 2) (length Q) = Some (2 * h + o' - 4)"
    using h o d lQ by (auto simp: py_index_def full_inner_def)
  have lAB: "length (A @ B) = 2 * h - 3" using lA lB h by simp
  have "2 * h + o' - 4 - (2 * h - 3) = o' - 1" "2 * h - 3 \<le> 2 * h + o' - 4" "o' - 1 < length T"
    using h o2' lT by simp_all
  then have "Q ! (2 * h + o' - 4) = T ! (o' - 1)"
    unfolding Q using nth_app_mid[OF lAB, of "2 * h + o' - 4" T D] by simp
  also have "\<dots> = (C @ [w]) ! (o' - 1)" using o2' by (simp add: T_def)
  also have "\<dots> = w" using lC by (simp add: nth_append)
  finally have "Q ! (2 * h + o' - 4) = zeros sh" using w by simp
  moreover have "nat (half_ny d + 2) = M" using d by simp
  ultimately show ?thesis
    using out[folded Q_def] i by (simp add: get_row_def sh_def)
qed

lemma reflect_centred_legs_aux:
  assumes "consistent d F"
  shows "\<exists>out l1 l2. reflect_centred d F = Inr out \<and>
     get_rows None (Some (half_inner d - 1)) out = Inr l1 \<and>
     get_rows None (Some (half_inner d - 1)) F = Inr l1 \<and>
     get_rows (Some (full_inner d + half_outer d - 1)) None out = Inr l2 \<and>
     get_rows (Some (half_inner d + 1)) None F = Inr l2"
proof -
  from assms obtain h o' sh xs m sh' where F: "F = Ar sh xs" and sh: "sh = m # sh'"
    and h: "1 \<le> h" and o: "1 \<le> o'" and len: "length xs = h + o'"
    and wf: "list_all (\<lambda>y. wf_nd y \<and> shape y = sh) xs"
    and d: "half_inner d = int h" "half_outer d = int o'" "half_nx d = int h + int o' - 2"
    by (rule consistentE)
  let ?n = "2 * h + 2 * o' - 4"
  define R where "R = centred_rows h xs"
  have out: "reflect_centred d F = Inr (Ar sh R)"
    unfolding F R_def using h o len wf d sh by (rule reflect_centred_closed)
  have lR: "length R = ?n" using len h o by (simp add: R_def centred_rows_def)
  have g2: "get_rows None (Some (half_inner d - 1)) F = Inr (Ar sh (take (h - 1) xs))"
    unfolding F using get_rows_nat[OF sh, of None "Some (half_inner d - 1)" xs 0 "h - 1"] len h d
    by (simp add: slice_idx_def slice_bound_int)
  have g4: "get_rows (Some (half_inner d + 1)) None F = Inr (Ar sh (drop (h + 1) xs))"
    unfolding F using get_rows_nat[OF sh, of "Some (half_inner d + 1)" None xs "h + 1" "h + o'"] len h o d
    by (simp add: slice_idx_def slice_bound_int)
  have i1: "slice_idx None (Some (half_inner d - 1)) (length R) = (0, h - 1)"
    unfolding slice_idx_def lR using h o d by (auto intro!: slice_bound_int)
  have i4: "slice_idx (Some (full_inner d + half_outer d - 1)) None (length R) = (2 * h + o' - 3, ?n)"
    unfolding slice_idx_def full_inner_def lR using h o d by (auto intro!: slice_bound_int)
  have m1: "take (h - 1 - 0) (drop 0 R) = take (h - 1) xs"
    unfolding R_def centred_rows_def using len h by simp
  have "drop (2 * h + o' - 3) R = drop (h + 1) xs"
    unfolding R_def centred_rows_def using len h o by simp
  then have m4: "take (?n - (2 * h + o' - 3)) (drop (2 * h + o' - 3) R) = drop (h + 1) xs"
    using len h o by simp
  have e1: "get_rows None (Some (half_inner d - 1)) (Ar sh R) = Inr (Ar sh (take (h - 1) xs))"
    using get_rows_nat[OF sh i1] m1 by simp
  have e4: "get_rows (Some (full_inner d + half_outer d - 1)) None (Ar sh R) = Inr (Ar sh (drop (h + 1) xs))"
    using get_rows_nat[OF sh i4] m4 by simp
  from out e1 g2 e4 g4 show ?thesis by blast
qed

lemma reflect_shapes_aux:
  fixes F :: "'a::zero nd" and ups :: "'b::{zero,uminus} nd"
  shows "(reflect_centred d F = Inr out \<longrightarrow>
       wf_nd out \<and> shape out = nat (2 * half_nx d) # tl (shape F)) \<and>
     (consistent d F \<longrightarrow> reflect_centred d F = Inr out \<longrightarrow>
       int (hd (shape out)) = 2 * int (hd (shape F)) - 4) \<and>
     (upss_of d nusp ups = Inr out' \<longrightarrow>
       wf_nd out' \<and> shape out' = [nat (2 * half_nx d), nat (half_ny d + 2), nat nusp])"
proof (intro conjI impI)
  assume r: "reflect_centred d F = Inr out"
  from reflect_centred_shape[OF r]
  show "wf_nd out" "shape out = nat (2 * half_nx d) # tl (shape F)" by simp_all
next
  assume c: "consistent d F" and r: "reflect_centred d F = Inr out"
  from reflect_centred_shape[OF r] have "hd (shape out) = nat (2 * half_nx d)" by simp
  with c show "int (hd (shape out)) = 2 * int (hd (shape F)) - 4"
    by (simp add: consistent_def)
next
  assume u: "upss_of d nusp ups = Inr out'"
  from upss_of_shape[OF u]
  show "wf_nd out'" "shape out' = [nat (2 * half_nx d), nat (half_ny d + 2), nat nusp]"
    by simp_all
qed


section \<open>Lemmas on the conversion\<close>

text \<open>\<open>contains\<close> is the substring relation.\<close>

lemma contains_iff: "contains sub s \<longleftrightarrow> (\<exists>p q. s = p @ sub @ q)"
proof (induction s)
  case Nil
  then show ?case by auto
next
  case (Cons c cs)
  show ?case
  proof
    assume "contains sub (c # cs)"
    then consider "prefix sub (c # cs)" | "contains sub cs" by auto
    then show "\<exists>p q. c # cs = p @ sub @ q"
    proof cases
      case 1
      then obtain q where "c # cs = sub @ q" by (auto simp: prefix_def)
      then have "c # cs = [] @ sub @ q" by simp
      then show ?thesis by blast
    next
      case 2
      with Cons obtain p q where "cs = p @ sub @ q" by blast
      then have "c # cs = (c # p) @ sub @ q" by simp
      then show ?thesis by blast
    qed
  next
    assume "\<exists>p q. c # cs = p @ sub @ q"
    then obtain p q where e: "c # cs = p @ sub @ q" by blast
    show "contains sub (c # cs)"
    proof (cases p)
      case Nil
      with e have "prefix sub (c # cs)" by (simp add: prefix_def)
      then show ?thesis by simp
    next
      case (Cons a p')
      with e have "cs = p' @ sub @ q" by simp
      with Cons.IH show ?thesis by auto
    qed
  qed
qed

lemma np_only_bind: "np_only m \<Longrightarrow> (\<And>x. np_only (f x)) \<Longrightarrow> np_only (ebind m f)"
  by (cases m) (simp_all add: ebind_def np_only_def)

lemma np_only_Inr: "np_only (Inr x)"
  by (simp add: np_only_def)

lemma np_only_get_rows: "np_only (get_rows a b x)"
  by (auto simp: np_only_def get_rows_def split: nd.splits list.splits prod.splits sum.splits)

lemma np_only_get_rows3: "np_only (get_rows3 a b k x)"
  by (auto simp: np_only_def get_rows3_def split: nd.splits list.splits prod.splits sum.splits)

lemma np_only_set_rows: "np_only (set_rows a b src x)"
  by (auto simp: np_only_def set_rows_def split: nd.splits list.splits prod.splits option.splits sum.splits)

lemma np_only_get_row: "np_only (get_row i x)"
  by (auto simp: np_only_def get_row_def split: nd.splits option.splits sum.splits)

lemma np_only_set_row: "np_only (set_row i r x)"
  by (auto simp: np_only_def set_row_def split: nd.splits option.splits sum.splits)

lemma np_only_at2: "np_only (at2 m i j)"
  by (simp add: np_only_def at2_def)

lemma np_only_reflect_centred: "np_only (reflect_centred d F)"
  unfolding reflect_centred_def
  by (auto simp: np_only_def[of "Inl ValueError"]
        intro!: np_only_bind np_only_get_rows np_only_set_rows)

lemma np_only_upss_segments: "np_only (upss_segments d nusp ups)"
  unfolding upss_segments_def
  by (auto simp: np_only_def[of "Inl ValueError"]
        intro!: np_only_bind np_only_get_rows3 np_only_set_rows)

lemma np_only_upss_of: "np_only (upss_of d nusp ups)"
  unfolding upss_of_def
  by (intro np_only_bind np_only_upss_segments np_only_get_row np_only_set_row)

lemma np_only_layout_of: "np_only (layout_of s)"
  unfolding layout_of_def by (intro np_only_bind np_only_at2 np_only_Inr)

lemma np_only_reflect_all: "np_only (reflect_all s)"
  unfolding reflect_all_def
  by (auto intro!: np_only_bind np_only_layout_of np_only_reflect_centred np_only_upss_of
        np_only_Inr)

lemma reflect_all_err: "reflect_all s = Inl e \<Longrightarrow> e = IndexError \<or> e = ValueError"
  using np_only_reflect_all[of s] by (simp add: np_only_def)


lemma dnbot_to_dnull_success:
  assumes "dnbot_to_dnull exmain s = (None, s')"
  obtains v s2 where "contains ''dnbot'' (com_geometry s)" "reflect_all s = Inr v"
    "exmain (set_switches s) = (True, s2)" "commit v s2 = (None, s')"
proof -
  from assms have c: "contains ''dnbot'' (com_geometry s)"
    by (auto simp: dnbot_to_dnull_def split: if_splits)
  with assms obtain v where v: "reflect_all s = Inr v"
    by (cases "reflect_all s") (auto simp: dnbot_to_dnull_def)
  obtain ok s2 where e: "exmain (set_switches s) = (ok, s2)" by (cases "exmain (set_switches s)")
  with assms c v have "ok" "commit v s2 = (None, s')"
    by (auto simp: dnbot_to_dnull_def split: if_splits bool.splits)
  with c v e that show ?thesis by simp
qed

lemma commit_core:
  assumes "commit v s2 = (None, s')"
  shows "bbb_pcoree s' = (if bbb_iflcore s2 = 1 then bbb_pcoree s2 * 2 else bbb_pcoree s2)"
    and "bbb_pcorei s' = (if bbb_iflcore s2 = 1 then bbb_pcorei s2 * 2 else bbb_pcorei s2)"
    and "bbb_ftol s' = 1 / 10 ^ 8"
    and "bbb_ups s' = upss v"
    and "bbb_afracs s' = (if bbb_isimpon s2 = 2 then the (afracs v) else bbb_afracs s2)"
    and "bbb_isimpon s2 = 2 \<longrightarrow> afracs v \<noteq> None"
  using assms
  by (auto simp: commit_def double_core_def Let_def split: if_splits option.splits)

lemma reflect_all_parts:
  assumes "reflect_all s = Inr v"
  shows "\<exists>d. layout_of s = Inr d \<and> upss_of d (com_nusp s) (bbb_ups s) = Inr (upss v) \<and>
     (bbb_isimpon s = 2 \<longrightarrow> (\<exists>a. reflect_centred d (bbb_afracs s) = Inr a \<and> afracs v = Some a)) \<and>
     (bbb_isimpon s \<noteq> 2 \<longrightarrow> afracs v = None)"
  using assms unfolding reflect_all_def
  by (auto dest!: ebind_Inr split: if_splits)

lemma reflect_all_afracs_off:
  "bbb_isimpon s \<noteq> 2 \<Longrightarrow> reflect_all (s\<lparr>bbb_afracs := a\<rparr>) = reflect_all s"
  by (simp add: reflect_all_def layout_of_def)

lemma zeros_all_zero: "all_nd (\<lambda>v. v = 0) (zeros sh)"
  by (induction sh) (simp_all add: list_all_iff)

lemma precondition_aux:
  "(\<not> contains ''dnbot'' (com_geometry s) \<longrightarrow>
      dnbot_to_dnull exmain s = (Some AssertionError, s)) \<and>
   (contains ''dnbot'' (com_geometry s) \<longrightarrow>
      fst (dnbot_to_dnull exmain s) \<noteq> Some AssertionError \<and>
      (\<forall>v s2. reflect_all s = Inr v \<longrightarrow> exmain (set_switches s) = (True, s2) \<longrightarrow>
         dnbot_to_dnull exmain s = commit v s2))"
proof (intro conjI impI allI)
  assume "\<not> contains ''dnbot'' (com_geometry s)"
  then show "dnbot_to_dnull exmain s = (Some AssertionError, s)"
    by (simp add: dnbot_to_dnull_def)
next
  assume c: "contains ''dnbot'' (com_geometry s)"
  show "fst (dnbot_to_dnull exmain s) \<noteq> Some AssertionError"
  proof (cases "reflect_all s")
    case (Inl e)
    with reflect_all_err[OF Inl] c show ?thesis by (auto simp: dnbot_to_dnull_def)
  next
    case (Inr v)
    obtain ok s2 where e: "exmain (set_switches s) = (ok, s2)"
      by (cases "exmain (set_switches s)")
    show ?thesis
      using c Inr e
      by (cases ok) (auto simp: dnbot_to_dnull_def commit_def Let_def split: option.splits)
  qed
next
  fix v s2
  assume "contains ''dnbot'' (com_geometry s)" "reflect_all s = Inr v"
    "exmain (set_switches s) = (True, s2)"
  then show "dnbot_to_dnull exmain s = commit v s2" by (simp add: dnbot_to_dnull_def)
qed

lemma core_power_aux:
  assumes run: "dnbot_to_dnull exmain s = (None, s')"
    and f1: "bbb_iflcore (snd (exmain (set_switches s))) = bbb_iflcore s"
    and f2: "bbb_pcoree (snd (exmain (set_switches s))) = bbb_pcoree s"
    and f3: "bbb_pcorei (snd (exmain (set_switches s))) = bbb_pcorei s"
  shows "(bbb_iflcore s = 1 \<longrightarrow>
            bbb_pcoree s' = 2 * bbb_pcoree s \<and> bbb_pcorei s' = 2 * bbb_pcorei s) \<and>
         (bbb_iflcore s \<noteq> 1 \<longrightarrow>
            bbb_pcoree s' = bbb_pcoree s \<and> bbb_pcorei s' = bbb_pcorei s)"
proof -
  from run obtain v s2 where e: "exmain (set_switches s) = (True, s2)"
    and c: "commit v s2 = (None, s')" by (rule dnbot_to_dnull_success)
  from f1 f2 f3 e have "bbb_iflcore s2 = bbb_iflcore s" "bbb_pcoree s2 = bbb_pcoree s"
    "bbb_pcorei s2 = bbb_pcorei s" by simp_all
  with commit_core(1,2)[OF c] show ?thesis by simp
qed

lemma afracs_aux:
  "(bbb_isimpon s \<noteq> 2 \<longrightarrow>
      reflect_all (s\<lparr>bbb_afracs := a\<rparr>) = reflect_all s \<and>
      set_switches (s\<lparr>bbb_afracs := a\<rparr>) = (set_switches s)\<lparr>bbb_afracs := a\<rparr> \<and>
      (dnbot_to_dnull exmain s = (None, s') \<longrightarrow>
         bbb_afracs s' = bbb_afracs (snd (exmain (set_switches s))))) \<and>
   (bbb_isimpon s = 2 \<longrightarrow> bbb_isimpon (snd (exmain (set_switches s))) = 2 \<longrightarrow>
      dnbot_to_dnull exmain s = (None, s') \<longrightarrow>
      (\<exists>d. layout_of s = Inr d \<and> reflect_centred d (bbb_afracs s) = Inr (bbb_afracs s')))"
proof (intro conjI impI)
  assume "bbb_isimpon s \<noteq> 2"
  then show "reflect_all (s\<lparr>bbb_afracs := a\<rparr>) = reflect_all s"
    by (rule reflect_all_afracs_off)
next
  show "set_switches (s\<lparr>bbb_afracs := a\<rparr>) = (set_switches s)\<lparr>bbb_afracs := a\<rparr>"
    by (simp add: set_switches_def)
next
  assume off: "bbb_isimpon s \<noteq> 2" and run: "dnbot_to_dnull exmain s = (None, s')"
  from run obtain v s2 where v: "reflect_all s = Inr v"
    and e: "exmain (set_switches s) = (True, s2)"
    and c: "commit v s2 = (None, s')" by (rule dnbot_to_dnull_success)
  from reflect_all_parts[OF v] off have "afracs v = None" by blast
  with commit_core(5,6)[OF c] e show "bbb_afracs s' = bbb_afracs (snd (exmain (set_switches s)))"
    by auto
next
  assume on: "bbb_isimpon s = 2" and on2: "bbb_isimpon (snd (exmain (set_switches s))) = 2"
    and run: "dnbot_to_dnull exmain s = (None, s')"
  from run obtain v s2 where v: "reflect_all s = Inr v"
    and e: "exmain (set_switches s) = (True, s2)"
    and c: "commit v s2 = (None, s')" by (rule dnbot_to_dnull_success)
  from reflect_all_parts[OF v] on obtain d a where
    d: "layout_of s = Inr d" "reflect_centred d (bbb_afracs s) = Inr a" "afracs v = Some a"
    by blast
  from commit_core(5)[OF c] on2 e d(3) have "bbb_afracs s' = a" by simp
  with d show "\<exists>d. layout_of s = Inr d \<and> reflect_centred d (bbb_afracs s) = Inr (bbb_afracs s')"
    by blast
qed

lemma ftol_aux:
  assumes "dnbot_to_dnull exmain s = (None, s')"
  shows "bbb_ftol s' = 1 / 10 ^ 8 \<and> bbb_ftol (set_switches s) = 10 ^ 10"
proof -
  from assms obtain v s2 where c: "commit v s2 = (None, s')" by (rule dnbot_to_dnull_success)
  from commit_core(3)[OF c] show ?thesis by (simp add: set_switches_def)
qed

lemma zero_row_aux:
  assumes run: "dnbot_to_dnull exmain s = (None, s')" and d: "layout_of s = Inr d"
    and c: "consistent_ups d (com_nusp s) (bbb_ups s)" and o: "2 \<le> half_outer d"
  shows "\<exists>row. get_row (full_inner d + half_outer d - 2) (bbb_ups s') = Inr row \<and>
           row = zeros [nat (half_ny d + 2), nat (com_nusp s)] \<and> all_nd (\<lambda>v. v = 0) row"
proof -
  from run obtain v s2 where v: "reflect_all s = Inr v"
    and cm: "commit v s2 = (None, s')" by (rule dnbot_to_dnull_success)
  from reflect_all_parts[OF v] d have u: "upss_of d (com_nusp s) (bbb_ups s) = Inr (upss v)"
    by auto
  from upss_of_zero_row[OF c o] u commit_core(4)[OF cm]
  have "get_row (full_inner d + half_outer d - 2) (bbb_ups s')
      = Inr (zeros [nat (half_ny d + 2), nat (com_nusp s)])" by simp
  with zeros_all_zero[of "[nat (half_ny d + 2), nat (com_nusp s)]"] show ?thesis by blast
qed


lemma staggered_mirror_rows:
  fixes ups :: "'a::{zero,uminus} nd"
  assumes c: "consistent_ups d nusp ups"
  shows "\<exists>out r4 r0.
     upss_of d nusp ups = Inr out \<and>
     get_rows3 (Some (half_inner d + 1)) (Some (half_inner d + half_outer d - 1)) nusp ups
       = Inr r4 \<and>
     get_rows (Some (full_inner d)) (Some (full_inner d + half_outer d - 2)) out
       = Inr (neg (rev_rows r4)) \<and>
     get_rows3 None (Some 1) nusp ups = Inr r0 \<and>
     get_rows (Some (full_inner d - 1)) (Some (full_inner d)) out = Inr (neg r0)"
proof -
  from c obtain h o' xs M K where ups: "ups = Ar [M, K] xs" and h: "2 \<le> h" and o: "1 \<le> o'"
    and len: "length xs = h + o'" and wf: "list_all (\<lambda>y. wf_nd y \<and> shape y = [M, K]) xs"
    and d: "half_inner d = int h" "half_outer d = int o'" "half_nx d = int h + int o' - 2"
      "half_ny d + 2 = int M"
    and k: "0 \<le> nusp" "nat nusp \<le> K"
    by (rule consistent_upsE)
  define U where "U = map (upto_axis 1 nusp) xs"
  define sh where "sh = [M, nat nusp]"
  from upss_of_closed[OF h o len wf d k] obtain w where
    out: "upss_of d nusp ups = Inr (Ar sh (stag_final h w U))"
    unfolding U_def sh_def ups by blast
  define A where "A = take (h - 2) U"
  define B where "B = map neg (rev (take (h - 1) U))"
  define C where "C = map neg (rev (drop (h + 1) U))"
  define D where "D = drop (h + 1) U"
  define T where "T = (C @ [w])[0 := neg (U ! 0)]"
  define Q where "Q = stag_final h w U"
  have lU: "length U = h + o'" by (simp add: U_def len)
  have lA: "length A = h - 2" and lB: "length B = h - 1" and lC: "length C = o' - 1"
    and lD: "length D = o' - 1" and lT: "length T = o'"
    using lU h o by (simp_all add: A_def B_def C_def D_def T_def)
  have Q: "Q = (A @ B) @ T @ D"
    by (simp only: Q_def stag_final_def A_def B_def C_def D_def T_def)
  have lAB: "length (A @ B) = 2 * h - 3" using lA lB h by simp
  have lQ: "length Q = 2 * h + 2 * o' - 4" using lA lB lT lD h o by (simp add: Q)
  have sh2: "sh = M # [nat nusp]" by (simp add: sh_def)
  \<comment> \<open>the source slices\<close>
  have g4: "get_rows3 (Some (half_inner d + 1)) (Some (half_inner d + half_outer d - 1)) nusp ups
      = Inr (Ar sh (take (o' - 2) (drop (h + 1) U)))"
  proof -
    have "slice_idx (Some (half_inner d + 1)) (Some (half_inner d + half_outer d - 1)) (length xs)
        = (h + 1, h + o' - 1)"
      unfolding slice_idx_def len using h o d by (auto intro!: slice_bound_int)
    from get_rows3_closed[OF k this, of M] show ?thesis
      by (simp add: ups U_def sh_def)
  qed
  have g0: "get_rows3 None (Some 1) nusp ups = Inr (Ar sh (take 1 U))"
  proof -
    have "slice_idx None (Some 1) (length xs) = (0, 1)"
      unfolding slice_idx_def len using h by (auto intro!: slice_bound_int)
    from get_rows3_closed[OF k this, of M] show ?thesis
      by (simp add: ups U_def sh_def)
  qed
  \<comment> \<open>the slices of the result\<close>
  have i5: "slice_idx (Some (full_inner d)) (Some (full_inner d + half_outer d - 2)) (length Q)
      = (2 * h - 2, 2 * h + o' - 4)"
    unfolding slice_idx_def full_inner_def lQ using h o d by (auto intro!: slice_bound_int)
  have i0: "slice_idx (Some (full_inner d - 1)) (Some (full_inner d)) (length Q)
      = (2 * h - 3, 2 * h - 2)"
    unfolding slice_idx_def full_inner_def lQ using h o d by (auto intro!: slice_bound_int)
  have Tne: "T \<noteq> []" using lT o by auto
  have T0: "take 1 T = [neg (U ! 0)]"
    using Tne by (cases T) (simp_all add: T_def, cases "C @ [w]", simp_all)
  have dQ: "drop (2 * h - 3) Q = T @ D" using lAB by (simp add: Q)
  have q0: "take (2 * h - 2 - (2 * h - 3)) (drop (2 * h - 3) Q) = map neg (take 1 U)"
  proof -
    have "2 * h - 2 - (2 * h - 3) = 1" using h by simp
    moreover have "take 1 (T @ D) = take 1 T" using Tne by (cases T) simp_all
    moreover have "take 1 U = [U ! 0]" using lU h by (cases U) simp_all
    ultimately show ?thesis using dQ T0 by simp
  qed
  have dT: "drop 1 T = drop 1 (C @ [w])" by (simp add: T_def)
  have "2 * h - 2 = Suc (2 * h - 3)" using h by simp
  then have "drop (2 * h - 2) Q = drop 1 (drop (2 * h - 3) Q)"
    by simp
  then have dQ2: "drop (2 * h - 2) Q = drop 1 T @ D" using dQ Tne by (cases T) simp_all
  have q5: "take (2 * h + o' - 4 - (2 * h - 2)) (drop (2 * h - 2) Q)
      = map neg (rev (take (o' - 2) (drop (h + 1) U)))"
  proof (cases "o' = 1")
    case True
    then show ?thesis by simp
  next
    case False
    with o have o2: "2 \<le> o'" by simp
    then have Cne: "C \<noteq> []" using lC by auto
    have e: "2 * h + o' - 4 - (2 * h - 2) = o' - 2" using h o2 by simp
    have "drop 1 (C @ [w]) = drop 1 C @ [w]" using Cne by (cases C) simp_all
    then have "take (o' - 2) (drop 1 T @ D) = drop 1 C"
      using dT lC by simp
    moreover have "drop 1 C = map neg (rev (take (o' - 2) (drop (h + 1) U)))"
      using lU h o2 by (simp add: C_def drop_map drop_rev numeral_2_eq_2)
    ultimately show ?thesis using e dQ2 by simp
  qed
  have e5: "get_rows (Some (full_inner d)) (Some (full_inner d + half_outer d - 2)) (Ar sh Q)
      = Inr (neg (rev_rows (Ar sh (take (o' - 2) (drop (h + 1) U)))))"
    using get_rows_nat[OF sh2 i5] q5 by (simp add: neg_Ar)
  have e0: "get_rows (Some (full_inner d - 1)) (Some (full_inner d)) (Ar sh Q)
      = Inr (neg (Ar sh (take 1 U)))"
    using get_rows_nat[OF sh2 i0] q0 by (simp add: neg_Ar)
  from out[folded Q_def] g4 e5 g0 e0 show ?thesis by blast
qed

lemma commit_afracs_off:
  assumes "afracs v = None"
  shows "commit v (s2\<lparr>bbb_afracs := a\<rparr>)
     = (fst (commit v s2), (snd (commit v s2))\<lparr>bbb_afracs := a\<rparr>)"
  using assms by (simp add: commit_def double_core_def Let_def)

lemma afracs_all_paths:
  assumes off: "bbb_isimpon s \<noteq> 2"
  shows "bbb_afracs (snd (dnbot_to_dnull exmain s))
     = (if contains ''dnbot'' (com_geometry s) \<and> \<not> isl (reflect_all s)
        then bbb_afracs (snd (exmain (set_switches s))) else bbb_afracs s)"
proof (cases "contains ''dnbot'' (com_geometry s)")
  case False
  then show ?thesis by (simp add: dnbot_to_dnull_def)
next
  case c: True
  show ?thesis
  proof (cases "reflect_all s")
    case (Inl e)
    with c show ?thesis by (simp add: dnbot_to_dnull_def)
  next
    case (Inr v)
    from reflect_all_parts[OF Inr] off have n: "afracs v = None" by blast
    obtain ok s2 where e: "exmain (set_switches s) = (ok, s2)"
      by (cases "exmain (set_switches s)")
    have "bbb_afracs (snd (commit v s2)) = bbb_afracs s2"
      using n by (simp add: commit_def double_core_def Let_def)
    with c Inr e show ?thesis by (cases ok) (simp_all add: dnbot_to_dnull_def)
  qed
qed

lemma afracs_noninterference:
  assumes off: "bbb_isimpon s \<noteq> 2"
    and ex: "exmain ((set_switches s)\<lparr>bbb_afracs := a\<rparr>)
       = (fst (exmain (set_switches s)), (snd (exmain (set_switches s)))\<lparr>bbb_afracs := a\<rparr>)"
  shows "dnbot_to_dnull exmain (s\<lparr>bbb_afracs := a\<rparr>)
     = (fst (dnbot_to_dnull exmain s), (snd (dnbot_to_dnull exmain s))\<lparr>bbb_afracs := a\<rparr>)"
proof (cases "contains ''dnbot'' (com_geometry s)")
  case False
  then show ?thesis by (simp add: dnbot_to_dnull_def)
next
  case c: True
  have r: "reflect_all (s\<lparr>bbb_afracs := a\<rparr>) = reflect_all s"
    using off by (rule reflect_all_afracs_off)
  have sw: "set_switches (s\<lparr>bbb_afracs := a\<rparr>) = (set_switches s)\<lparr>bbb_afracs := a\<rparr>"
    by (simp add: set_switches_def)
  show ?thesis
  proof (cases "reflect_all s")
    case (Inl e)
    with c r show ?thesis by (simp add: dnbot_to_dnull_def)
  next
    case (Inr v)
    from reflect_all_parts[OF Inr] off have n: "afracs v = None" by blast
    obtain ok s2 where e: "exmain (set_switches s) = (ok, s2)"
      by (cases "exmain (set_switches s)")
    with ex have e': "exmain ((set_switches s)\<lparr>bbb_afracs := a\<rparr>) = (ok, s2\<lparr>bbb_afracs := a\<rparr>)"
      by simp
    show ?thesis
      using c r sw Inr e e' commit_afracs_off[OF n, of a s2]
      by (cases ok) (simp_all add: dnbot_to_dnull_def)
  qed
qed

lemma afracs_aux2:
  "(bbb_isimpon s \<noteq> 2 \<longrightarrow>
      reflect_all (s\<lparr>bbb_afracs := a\<rparr>) = reflect_all s \<and>
      set_switches (s\<lparr>bbb_afracs := a\<rparr>) = (set_switches s)\<lparr>bbb_afracs := a\<rparr> \<and>
      (\<forall>v s2. reflect_all s = Inr v \<longrightarrow>
         commit v (s2\<lparr>bbb_afracs := a\<rparr>)
           = (fst (commit v s2), (snd (commit v s2))\<lparr>bbb_afracs := a\<rparr>)) \<and>
      bbb_afracs (snd (dnbot_to_dnull exmain s))
        = (if contains ''dnbot'' (com_geometry s) \<and> \<not> isl (reflect_all s)
           then bbb_afracs (snd (exmain (set_switches s))) else bbb_afracs s) \<and>
      (exmain ((set_switches s)\<lparr>bbb_afracs := a\<rparr>)
         = (fst (exmain (set_switches s)), (snd (exmain (set_switches s)))\<lparr>bbb_afracs := a\<rparr>) \<longrightarrow>
       dnbot_to_dnull exmain (s\<lparr>bbb_afracs := a\<rparr>)
         = (fst (dnbot_to_dnull exmain s), (snd (dnbot_to_dnull exmain s))\<lparr>bbb_afracs := a\<rparr>)) \<and>
      (dnbot_to_dnull exmain s = (None, s') \<longrightarrow>
         bbb_afracs s' = bbb_afracs (snd (exmain (set_switches s))))) \<and>
   (bbb_isimpon s = 2 \<longrightarrow> bbb_isimpon (snd (exmain (set_switches s))) = 2 \<longrightarrow>
      dnbot_to_dnull exmain s = (None, s') \<longrightarrow>
      (\<exists>d. layout_of s = Inr d \<and> reflect_centred d (bbb_afracs s) = Inr (bbb_afracs s')))"
proof -
  have "reflect_all s = Inr v \<Longrightarrow> bbb_isimpon s \<noteq> 2 \<Longrightarrow> afracs v = None" for v
    using reflect_all_parts[of s v] by blast
  then have cm: "bbb_isimpon s \<noteq> 2 \<Longrightarrow> reflect_all s = Inr v \<Longrightarrow>
      commit v (s2\<lparr>bbb_afracs := a\<rparr>)
        = (fst (commit v s2), (snd (commit v s2))\<lparr>bbb_afracs := a\<rparr>)" for v s2
    by (intro commit_afracs_off) simp
  from afracs_aux[of s a exmain s'] cm afracs_all_paths[of s exmain]
    afracs_noninterference[of s exmain a]
  show ?thesis by blast
qed


section \<open>The claims\<close>

text \<open>
  C2. For a field \<open>F\<close> consistent with the layout, the rows \<open>half_inner-1\<close> to
  \<open>2*half_inner-3\<close> of the reflected array are the rows \<open>0\<close> to \<open>half_inner-2\<close> of \<open>F\<close>
  in reversed order, and the rows \<open>full_inner\<close> to \<open>full_inner+half_outer-2\<close> are the rows
  \<open>half_inner+1\<close> to the last of \<open>F\<close> in reversed order; each row is copied whole.
\<close>

theorem reflect_centred_mirror:
  assumes "consistent d F"
  shows "\<exists>out r2 r4. reflect_centred d F = Inr out \<and>
     get_rows None (Some (half_inner d - 1)) F = Inr r2 \<and>
     get_rows (Some (half_inner d + 1)) None F = Inr r4 \<and>
     get_rows (Some (half_inner d - 1)) (Some (2 * half_inner d - 2)) out = Inr (rev_rows r2) \<and>
     get_rows (Some (full_inner d)) (Some (full_inner d + half_outer d - 1)) out = Inr (rev_rows r4)"
proof -
  from assms obtain h o' sh xs m sh' where F: "F = Ar sh xs" and sh: "sh = m # sh'"
    and h: "1 \<le> h" and o: "1 \<le> o'" and len: "length xs = h + o'"
    and wf: "list_all (\<lambda>y. wf_nd y \<and> shape y = sh) xs"
    and d: "half_inner d = int h" "half_outer d = int o'" "half_nx d = int h + int o' - 2"
    by (rule consistentE)
  let ?n = "2 * h + 2 * o' - 4"
  define R where "R = centred_rows h xs"
  have out: "reflect_centred d F = Inr (Ar sh R)"
    unfolding F R_def using h o len wf d sh by (rule reflect_centred_closed)
  have lR: "length R = ?n" using len h o by (simp add: R_def centred_rows_def)
  have g2: "get_rows None (Some (half_inner d - 1)) F = Inr (Ar sh (take (h - 1) xs))"
    unfolding F using get_rows_nat[OF sh, of None "Some (half_inner d - 1)" xs 0 "h - 1"] len h d
    by (simp add: slice_idx_def slice_bound_int)
  have g4: "get_rows (Some (half_inner d + 1)) None F = Inr (Ar sh (drop (h + 1) xs))"
    unfolding F using get_rows_nat[OF sh, of "Some (half_inner d + 1)" None xs "h + 1" "h + o'"] len h o d
    by (simp add: slice_idx_def slice_bound_int)
  have i2: "slice_idx (Some (half_inner d - 1)) (Some (2 * half_inner d - 2)) (length R) = (h - 1, 2 * h - 2)"
    unfolding slice_idx_def lR using h o d by (auto intro!: slice_bound_int)
  have i4: "slice_idx (Some (full_inner d)) (Some (full_inner d + half_outer d - 1)) (length R) = (2 * h - 2, 2 * h + o' - 3)"
    unfolding slice_idx_def full_inner_def lR using h o d by (auto intro!: slice_bound_int)
  have m2: "take (2 * h - 2 - (h - 1)) (drop (h - 1) R) = rev (take (h - 1) xs)"
    unfolding R_def centred_rows_def using len h by (intro slice_mid) auto
  have "take (2 * h + o' - 3 - (2 * h - 2)) (drop (2 * h - 2) ((take (h - 1) xs @ rev (take (h - 1) xs)) @ rev (drop (h + 1) xs) @ drop (h + 1) xs)) = rev (drop (h + 1) xs)"
    using len h o by (intro slice_mid) auto
  then have m4: "take (2 * h + o' - 3 - (2 * h - 2)) (drop (2 * h - 2) R) = rev (drop (h + 1) xs)"
    by (simp add: R_def centred_rows_def)
  show ?thesis
    using out g2 g4 get_rows_nat[OF sh i2] get_rows_nat[OF sh i4] m2 m4 by simp
qed

theorem reflect_centred_mirror_witness:
  "consistent d33 F6 \<and>
   reflect_centred d33 F6 = Inr F6_full \<and>
   (\<exists>out r2 r4. reflect_centred d33 F6 = Inr out \<and>
     get_rows None (Some (half_inner d33 - 1)) F6 = Inr r2 \<and>
     get_rows (Some (half_inner d33 + 1)) None F6 = Inr r4 \<and>
     get_rows (Some (half_inner d33 - 1)) (Some (2 * half_inner d33 - 2)) out = Inr (rev_rows r2) \<and>
     get_rows (Some (full_inner d33)) (Some (full_inner d33 + half_outer d33 - 1)) out
       = Inr (rev_rows r4))"
proof -
  have c: "consistent d33 F6" by code_simp
  have "reflect_centred d33 F6 = Inr F6_full"
    by code_simp
  with c reflect_centred_mirror[OF c] show ?thesis by blast
qed

text \<open>
  C1, as stated, fails: the first \<open>half_inner\<close> rows of the result are not the first
  \<open>half_inner\<close> rows of \<open>F\<close>, because line 63 writes the mirrored segment from row
  \<open>half_inner-1\<close> on, over the last row line 60 copied.
\<close>

theorem reflect_centred_legs_counterexample:
  "consistent d33 F6 \<and> reflect_centred d33 F6 = Inr F6_full \<and>
   get_rows None (Some (half_inner d33)) F6_full \<noteq> get_rows None (Some (half_inner d33)) F6"
  by code_simp

text \<open>
  C1, amended. For a field \<open>F\<close> consistent with the layout, the first \<open>half_inner-1\<close>
  rows of the reflected array are the first \<open>half_inner-1\<close> rows of \<open>F\<close>, and its rows
  from \<open>full_inner+half_outer-1\<close> to the end are the rows of \<open>F\<close> from \<open>half_inner+1\<close> to
  the end.
\<close>

theorem reflect_centred_legs:
  assumes "consistent d F"
  shows "\<exists>out l1 l2. reflect_centred d F = Inr out \<and>
     get_rows None (Some (half_inner d - 1)) out = Inr l1 \<and>
     get_rows None (Some (half_inner d - 1)) F = Inr l1 \<and>
     get_rows (Some (full_inner d + half_outer d - 1)) None out = Inr l2 \<and>
     get_rows (Some (half_inner d + 1)) None F = Inr l2"
  using assms by (rule reflect_centred_legs_aux)

theorem reflect_centred_legs_witness:
  "consistent d33 F6 \<and>
   (\<exists>out l1 l2. reflect_centred d33 F6 = Inr out \<and>
     get_rows None (Some (half_inner d33 - 1)) out = Inr l1 \<and>
     get_rows None (Some (half_inner d33 - 1)) F6 = Inr l1 \<and>
     get_rows (Some (full_inner d33 + half_outer d33 - 1)) None out = Inr l2 \<and>
     get_rows (Some (half_inner d33 + 1)) None F6 = Inr l2)"
proof -
  have c: "consistent d33 F6" by code_simp
  with reflect_centred_legs[OF c] show ?thesis by blast
qed

text \<open>
  C3, as stated, fails: rows \<open>half_inner-2\<close> and \<open>half_inner-1\<close> of the lower inner leg
  lie in the first mirrored segment, which line 103 writes after line 100, so they are
  negative for a positive flow.
\<close>

theorem staggered_signs_counterexample:
  "consistent_ups d33 1 U6 \<and> all_pos U6 \<and> upss_of d33 1 U6 = Inr U6_full \<and>
   get_rows None (Some (half_inner d33)) U6_full
     = Inr (cube 2 1 [[[1], [3]], [[-5], [-7]], [[-1], [-3]]]) \<and>
   \<not> all_pos (cube 2 1 [[[1], [3]], [[-5], [-7]], [[-1], [-3 :: real]]])"
  by code_simp

text \<open>
  C3, amended. For a flow array that fits the layout and has only positive entries,
  every entry of the two mirrored segments of the result, rows
  \<open>[half_inner-2, 2*half_inner-3)\<close> and \<open>[full_inner-1, full_inner+half_outer-2)\<close>, is
  negative. The first segment is the negated, reversed source rows \<open>[0, half_inner-1)\<close>.
  Of the second, the rows \<open>[full_inner, full_inner+half_outer-2)\<close> are the negated,
  reversed source rows \<open>[half_inner+1, half_inner+half_outer-1)\<close>, and its first row
  \<open>full_inner-1\<close> is the negated source row \<open>0\<close>, the copy made by line 112. The rows
  \<open>[0, half_inner-2)\<close> of the lower inner leg and the rows from \<open>full_inner+half_outer-1\<close>
  on are the source rows (first \<open>nusp\<close> species), so positive.
\<close>

theorem staggered_signs:
  fixes ups :: "'a::ordered_ab_group_add nd"
  assumes "consistent_ups d nusp ups" and "all_pos ups"
  shows "\<exists>out r2 m1 m2 l1 l2 r4 r0.
     upss_of d nusp ups = Inr out \<and>
     get_rows3 None (Some (half_inner d - 1)) nusp ups = Inr r2 \<and>
     get_rows (Some (half_inner d - 2)) (Some (2 * half_inner d - 3)) out = Inr m1 \<and>
     m1 = neg (rev_rows r2) \<and> all_neg m1 \<and>
     get_rows (Some (full_inner d - 1)) (Some (full_inner d + half_outer d - 2)) out = Inr m2 \<and>
     all_neg m2 \<and>
     get_rows None (Some (half_inner d - 2)) out = Inr l1 \<and>
     get_rows3 None (Some (half_inner d - 2)) nusp ups = Inr l1 \<and> all_pos l1 \<and>
     get_rows (Some (full_inner d + half_outer d - 1)) None out = Inr l2 \<and>
     get_rows3 (Some (half_inner d + 1)) None nusp ups = Inr l2 \<and> all_pos l2 \<and>
     get_rows3 (Some (half_inner d + 1)) (Some (half_inner d + half_outer d - 1)) nusp ups
       = Inr r4 \<and>
     get_rows (Some (full_inner d)) (Some (full_inner d + half_outer d - 2)) out
       = Inr (neg (rev_rows r4)) \<and>
     get_rows3 None (Some 1) nusp ups = Inr r0 \<and>
     get_rows (Some (full_inner d - 1)) (Some (full_inner d)) out = Inr (neg r0)"
proof -
  from staggered_signs_aux[OF assms] obtain out r2 m1 m2 l1 l2 where
    a: "upss_of d nusp ups = Inr out"
      "get_rows3 None (Some (half_inner d - 1)) nusp ups = Inr r2"
      "get_rows (Some (half_inner d - 2)) (Some (2 * half_inner d - 3)) out = Inr m1"
      "m1 = neg (rev_rows r2)" "all_neg m1"
      "get_rows (Some (full_inner d - 1)) (Some (full_inner d + half_outer d - 2)) out = Inr m2"
      "all_neg m2"
      "get_rows None (Some (half_inner d - 2)) out = Inr l1"
      "get_rows3 None (Some (half_inner d - 2)) nusp ups = Inr l1" "all_pos l1"
      "get_rows (Some (full_inner d + half_outer d - 1)) None out = Inr l2"
      "get_rows3 (Some (half_inner d + 1)) None nusp ups = Inr l2" "all_pos l2"
    by blast
  from staggered_mirror_rows[OF assms(1)] a(1) obtain r4 r0 where
    b: "get_rows3 (Some (half_inner d + 1)) (Some (half_inner d + half_outer d - 1)) nusp ups
          = Inr r4"
      "get_rows (Some (full_inner d)) (Some (full_inner d + half_outer d - 2)) out
          = Inr (neg (rev_rows r4))"
      "get_rows3 None (Some 1) nusp ups = Inr r0"
      "get_rows (Some (full_inner d - 1)) (Some (full_inner d)) out = Inr (neg r0)"
    by auto
  from a b show ?thesis by blast
qed

theorem staggered_signs_witness:
  "consistent_ups d33 1 U6 \<and> all_pos U6 \<and> upss_of d33 1 U6 = Inr U6_full \<and>
   get_rows (Some (full_inner d33)) (Some (full_inner d33 + half_outer d33 - 2)) U6_full
     = Inr (cube 2 1 [[[-17], [-19]]]) \<and>
   get_rows (Some (full_inner d33 - 1)) (Some (full_inner d33)) U6_full
     = Inr (cube 2 1 [[[-1], [-3]]]) \<and>
   (\<exists>out r2 m1 m2 l1 l2 r4 r0.
     upss_of d33 1 U6 = Inr out \<and>
     get_rows3 None (Some (half_inner d33 - 1)) 1 U6 = Inr r2 \<and>
     get_rows (Some (half_inner d33 - 2)) (Some (2 * half_inner d33 - 3)) out = Inr m1 \<and>
     m1 = neg (rev_rows r2) \<and> all_neg m1 \<and>
     get_rows (Some (full_inner d33 - 1)) (Some (full_inner d33 + half_outer d33 - 2)) out
       = Inr m2 \<and>
     all_neg m2 \<and>
     get_rows None (Some (half_inner d33 - 2)) out = Inr l1 \<and>
     get_rows3 None (Some (half_inner d33 - 2)) 1 U6 = Inr l1 \<and> all_pos l1 \<and>
     get_rows (Some (full_inner d33 + half_outer d33 - 1)) None out = Inr l2 \<and>
     get_rows3 (Some (half_inner d33 + 1)) None 1 U6 = Inr l2 \<and> all_pos l2 \<and>
     get_rows3 (Some (half_inner d33 + 1)) (Some (half_inner d33 + half_outer d33 - 1)) 1 U6
       = Inr r4 \<and>
     get_rows (Some (full_inner d33)) (Some (full_inner d33 + half_outer d33 - 2)) out
       = Inr (neg (rev_rows r4)) \<and>
     get_rows3 None (Some 1) 1 U6 = Inr r0 \<and>
     get_rows (Some (full_inner d33 - 1)) (Some (full_inner d33)) out = Inr (neg r0))"
proof -
  have c: "consistent_ups d33 1 U6" by code_simp
  have p: "all_pos U6" by code_simp
  have e: "upss_of d33 1 U6 = Inr U6_full" by code_simp
  have s: "get_rows (Some (full_inner d33)) (Some (full_inner d33 + half_outer d33 - 2)) U6_full
      = Inr (cube 2 1 [[[-17], [-19]]])"
    "get_rows (Some (full_inner d33 - 1)) (Some (full_inner d33)) U6_full
      = Inr (cube 2 1 [[[-1], [-3]]])"
    by code_simp+
  from staggered_signs[OF c p] c p e s show ?thesis by blast
qed

text \<open>
  C4. Whenever the staggered reflection returns, its last step is the assignment of
  line 112 to the result of the four segment copies, and in the result the row at index
  \<open>2*half_inner-3\<close> equals the row at index \<open>2*half_inner-4\<close>.
\<close>

theorem upss_boundary_row:
  assumes "upss_of d nusp ups = Inr out"
  shows "\<exists>u r. upss_segments d nusp ups = Inr u \<and>
           get_row (2 * half_inner d - 4) u = Inr r \<and>
           set_row (2 * half_inner d - 3) r u = Inr out \<and>
           get_row (2 * half_inner d - 3) out = Inr r \<and>
           get_row (2 * half_inner d - 4) out = Inr r"
  using assms by (rule upss_of_boundary)

theorem upss_boundary_row_witness:
  "upss_of d33 1 U6 = Inr U6_full \<and>
   (\<exists>u r. upss_segments d33 1 U6 = Inr u \<and>
           get_row (2 * half_inner d33 - 4) u = Inr r \<and>
           set_row (2 * half_inner d33 - 3) r u = Inr U6_full \<and>
           get_row (2 * half_inner d33 - 3) U6_full = Inr r \<and>
           get_row (2 * half_inner d33 - 4) U6_full = Inr r)"
proof -
  have e: "upss_of d33 1 U6 = Inr U6_full" by code_simp
  from upss_boundary_row[OF e] e show ?thesis by blast
qed

text \<open>
  C8, as stated, fails: the result has \<open>2 * half_nx\<close> poloidal rows, and an input that
  fits has \<open>half_nx + 2\<close>, as line 32 says; and the flow result has \<open>com.nusp\<close> species,
  the input's species beyond them being cut by the slice \<open>:com.nusp\<close>.
\<close>

theorem reflect_shapes_counterexample:
  "consistent d33 F6 \<and> reflect_centred d33 F6 = Inr F6_full \<and>
   hd (shape F6_full) \<noteq> 2 * hd (shape F6) \<and>
   consistent_ups d33 1 U6 \<and> upss_of d33 1 U6 = Inr U6_full \<and>
   hd (shape U6_full) \<noteq> 2 * hd (shape U6) \<and> tl (shape U6_full) \<noteq> tl (shape U6)"
  by code_simp

text \<open>
  C8, amended. Whenever the cell-centred reflector returns, its result is rectangular
  with \<open>2 * half_nx\<close> poloidal rows and the trailing dimensions of the input; for an
  input that fits the layout that is twice the input's poloidal extent less four.
  Whenever the staggered reflection returns, its result is rectangular of shape
  \<open>(2 * half_nx, half_ny + 2, nusp)\<close>.
\<close>

theorem reflect_shapes:
  fixes F :: "'a::zero nd" and ups :: "'b::{zero,uminus} nd"
  shows "(reflect_centred d F = Inr out \<longrightarrow>
       wf_nd out \<and> shape out = nat (2 * half_nx d) # tl (shape F)) \<and>
     (consistent d F \<longrightarrow> reflect_centred d F = Inr out \<longrightarrow>
       int (hd (shape out)) = 2 * int (hd (shape F)) - 4) \<and>
     (upss_of d nusp ups = Inr out' \<longrightarrow>
       wf_nd out' \<and> shape out' = [nat (2 * half_nx d), nat (half_ny d + 2), nat nusp])"
  by (rule reflect_shapes_aux)

theorem reflect_shapes_witness:
  "reflect_centred d33 F6 = Inr F6_full \<and> consistent d33 F6 \<and>
   upss_of d33 1 U6 = Inr U6_full \<and>
   wf_nd F6_full \<and> shape F6_full = nat (2 * half_nx d33) # tl (shape F6) \<and>
   int (hd (shape F6_full)) = 2 * int (hd (shape F6)) - 4 \<and>
   wf_nd U6_full \<and> shape U6_full = [nat (2 * half_nx d33), nat (half_ny d33 + 2), nat 1]"
proof -
  have e: "reflect_centred d33 F6 = Inr F6_full" by code_simp
  have c: "consistent d33 F6" by code_simp
  have u: "upss_of d33 1 U6 = Inr U6_full" by code_simp
  from reflect_shapes[of d33 F6 F6_full 1 U6 U6_full] e c u show ?thesis by blast
qed

text \<open>
  C5. When the geometry tag does not contain "dnbot", the function raises AssertionError
  and the solver state is the state it was called with; when the tag contains "dnbot",
  the function does not raise AssertionError, and with the reflections built and the
  solver's step returned it goes on to commit them.
\<close>

theorem precondition_check:
  "(\<not> contains ''dnbot'' (com_geometry s) \<longrightarrow>
      dnbot_to_dnull exmain s = (Some AssertionError, s)) \<and>
   (contains ''dnbot'' (com_geometry s) \<longrightarrow>
      fst (dnbot_to_dnull exmain s) \<noteq> Some AssertionError \<and>
      (\<forall>v s2. reflect_all s = Inr v \<longrightarrow> exmain (set_switches s) = (True, s2) \<longrightarrow>
         dnbot_to_dnull exmain s = commit v s2))"
  by (rule precondition_aux)

theorem precondition_check_witness:
  "\<not> contains ''dnbot'' (com_geometry (s0\<lparr>com_geometry := ''snull''\<rparr>)) \<and>
   dnbot_to_dnull exmain_alloc (s0\<lparr>com_geometry := ''snull''\<rparr>)
     = (Some AssertionError, s0\<lparr>com_geometry := ''snull''\<rparr>) \<and>
   contains ''dnbot'' (com_geometry s0) \<and>
   fst (dnbot_to_dnull exmain_alloc s0) \<noteq> Some AssertionError \<and>
   fst (dnbot_to_dnull exmain_alloc s0) = None"
proof -
  have n: "\<not> contains ''dnbot'' (com_geometry (s0\<lparr>com_geometry := ''snull''\<rparr>))"
    by code_simp
  have c: "contains ''dnbot'' (com_geometry s0)" by code_simp
  have r: "fst (dnbot_to_dnull exmain_alloc s0) = None" by code_simp
  from precondition_check[of "s0\<lparr>com_geometry := ''snull''\<rparr>" exmain_alloc]
    precondition_check[of s0 exmain_alloc] n c r
  show ?thesis by blast
qed

text \<open>
  C6. After a conversion that returned, on a solver whose step leaves \<open>iflcore\<close>,
  \<open>pcoree\<close> and \<open>pcorei\<close> as they are: when \<open>iflcore\<close> is 1 the two core powers are twice
  their values before the call, otherwise they are unchanged.
\<close>

theorem core_power_doubling:
  assumes "dnbot_to_dnull exmain s = (None, s')"
    and "bbb_iflcore (snd (exmain (set_switches s))) = bbb_iflcore s"
    and "bbb_pcoree (snd (exmain (set_switches s))) = bbb_pcoree s"
    and "bbb_pcorei (snd (exmain (set_switches s))) = bbb_pcorei s"
  shows "(bbb_iflcore s = 1 \<longrightarrow>
            bbb_pcoree s' = 2 * bbb_pcoree s \<and> bbb_pcorei s' = 2 * bbb_pcorei s) \<and>
         (bbb_iflcore s \<noteq> 1 \<longrightarrow>
            bbb_pcoree s' = bbb_pcoree s \<and> bbb_pcorei s' = bbb_pcorei s)"
  using assms by (rule core_power_aux)

theorem core_power_doubling_witness:
  "dnbot_to_dnull exmain_alloc s0 = (None, snd (dnbot_to_dnull exmain_alloc s0)) \<and>
   bbb_iflcore s0 = 1 \<and> bbb_pcoree s0 = 3 \<and> bbb_pcorei s0 = 5 \<and>
   bbb_pcoree (snd (dnbot_to_dnull exmain_alloc s0)) = 6 \<and>
   bbb_pcorei (snd (dnbot_to_dnull exmain_alloc s0)) = 10 \<and>
   dnbot_to_dnull exmain_alloc (s0\<lparr>bbb_iflcore := 0\<rparr>)
     = (None, snd (dnbot_to_dnull exmain_alloc (s0\<lparr>bbb_iflcore := 0\<rparr>))) \<and>
   bbb_pcoree (snd (dnbot_to_dnull exmain_alloc (s0\<lparr>bbb_iflcore := 0\<rparr>))) = 3 \<and>
   bbb_pcorei (snd (dnbot_to_dnull exmain_alloc (s0\<lparr>bbb_iflcore := 0\<rparr>))) = 5"
proof -
  let ?t = "s0\<lparr>bbb_iflcore := 0\<rparr>"
  have r: "dnbot_to_dnull exmain_alloc s0 = (None, snd (dnbot_to_dnull exmain_alloc s0))"
    by code_simp
  have f: "bbb_iflcore (snd (exmain_alloc (set_switches s0))) = bbb_iflcore s0"
    "bbb_pcoree (snd (exmain_alloc (set_switches s0))) = bbb_pcoree s0"
    "bbb_pcorei (snd (exmain_alloc (set_switches s0))) = bbb_pcorei s0"
    by (simp_all add: exmain_alloc_def set_switches_def)
  have v: "bbb_iflcore s0 = 1" "bbb_pcoree s0 = 3" "bbb_pcorei s0 = 5"
    by (simp_all add: s0_def)
  have r': "dnbot_to_dnull exmain_alloc ?t = (None, snd (dnbot_to_dnull exmain_alloc ?t))"
    by code_simp
  have f': "bbb_iflcore (snd (exmain_alloc (set_switches ?t))) = bbb_iflcore ?t"
    "bbb_pcoree (snd (exmain_alloc (set_switches ?t))) = bbb_pcoree ?t"
    "bbb_pcorei (snd (exmain_alloc (set_switches ?t))) = bbb_pcorei ?t"
    by (simp_all add: exmain_alloc_def set_switches_def)
  have v': "bbb_iflcore ?t \<noteq> 1" "bbb_pcoree ?t = 3" "bbb_pcorei ?t = 5"
    by (simp_all add: s0_def)
  from core_power_doubling[OF r f] core_power_doubling[OF r' f'] r r' v v'
  show ?thesis by simp
qed

text \<open>
  C7. When \<open>isimpon\<close> is not 2 the function neither reads nor writes the impurity
  fraction: the reflections built before the solver's step, the state handed to that
  step and what lines 127 to 150 do with the state it returns do not depend on it; on
  every run, also one that raises, the impurity fraction at the end is the one the
  solver's step left, or the one at the call when the function raised before that step;
  and with a solver's step that itself does not depend on it, the whole function
  commutes with a change of the impurity fraction. When \<open>isimpon\<close> is 2 before and after
  the solver's step, the impurity fraction after a conversion that returned is the
  reflection of the one before the call.
\<close>

theorem afracs_only_when_on:
  "(bbb_isimpon s \<noteq> 2 \<longrightarrow>
      reflect_all (s\<lparr>bbb_afracs := a\<rparr>) = reflect_all s \<and>
      set_switches (s\<lparr>bbb_afracs := a\<rparr>) = (set_switches s)\<lparr>bbb_afracs := a\<rparr> \<and>
      (\<forall>v s2. reflect_all s = Inr v \<longrightarrow>
         commit v (s2\<lparr>bbb_afracs := a\<rparr>)
           = (fst (commit v s2), (snd (commit v s2))\<lparr>bbb_afracs := a\<rparr>)) \<and>
      bbb_afracs (snd (dnbot_to_dnull exmain s))
        = (if contains ''dnbot'' (com_geometry s) \<and> \<not> isl (reflect_all s)
           then bbb_afracs (snd (exmain (set_switches s))) else bbb_afracs s) \<and>
      (exmain ((set_switches s)\<lparr>bbb_afracs := a\<rparr>)
         = (fst (exmain (set_switches s)), (snd (exmain (set_switches s)))\<lparr>bbb_afracs := a\<rparr>) \<longrightarrow>
       dnbot_to_dnull exmain (s\<lparr>bbb_afracs := a\<rparr>)
         = (fst (dnbot_to_dnull exmain s), (snd (dnbot_to_dnull exmain s))\<lparr>bbb_afracs := a\<rparr>)) \<and>
      (dnbot_to_dnull exmain s = (None, s') \<longrightarrow>
         bbb_afracs s' = bbb_afracs (snd (exmain (set_switches s))))) \<and>
   (bbb_isimpon s = 2 \<longrightarrow> bbb_isimpon (snd (exmain (set_switches s))) = 2 \<longrightarrow>
      dnbot_to_dnull exmain s = (None, s') \<longrightarrow>
      (\<exists>d. layout_of s = Inr d \<and> reflect_centred d (bbb_afracs s) = Inr (bbb_afracs s')))"
  by (rule afracs_aux2)

theorem afracs_only_when_on_witness:
  "bbb_isimpon s0 \<noteq> 2 \<and>
   dnbot_to_dnull exmain_alloc s0 = (None, snd (dnbot_to_dnull exmain_alloc s0)) \<and>
   reflect_all (s0\<lparr>bbb_afracs := Sc 7\<rparr>) = reflect_all s0 \<and>
   bbb_afracs (snd (dnbot_to_dnull exmain_alloc s0)) = zeros [8, 2] \<and>
   bbb_isimpon (s0\<lparr>com_nx := 10\<rparr>) \<noteq> 2 \<and>
   fst (dnbot_to_dnull exmain_alloc (s0\<lparr>com_nx := 10\<rparr>)) = Some ValueError \<and>
   bbb_afracs (snd (dnbot_to_dnull exmain_alloc (s0\<lparr>com_nx := 10\<rparr>))) = F6 \<and>
   exmain_grid ((set_switches s0)\<lparr>bbb_afracs := Sc 7\<rparr>)
     = (fst (exmain_grid (set_switches s0)),
        (snd (exmain_grid (set_switches s0)))\<lparr>bbb_afracs := Sc 7\<rparr>) \<and>
   dnbot_to_dnull exmain_grid (s0\<lparr>bbb_afracs := Sc 7\<rparr>)
     = (None, (snd (dnbot_to_dnull exmain_grid s0))\<lparr>bbb_afracs := Sc 7\<rparr>) \<and>
   bbb_isimpon (s0\<lparr>bbb_isimpon := 2\<rparr>) = 2 \<and>
   bbb_isimpon (snd (exmain_alloc (set_switches (s0\<lparr>bbb_isimpon := 2\<rparr>)))) = 2 \<and>
   dnbot_to_dnull exmain_alloc (s0\<lparr>bbb_isimpon := 2\<rparr>)
     = (None, snd (dnbot_to_dnull exmain_alloc (s0\<lparr>bbb_isimpon := 2\<rparr>))) \<and>
   bbb_afracs (snd (dnbot_to_dnull exmain_alloc (s0\<lparr>bbb_isimpon := 2\<rparr>))) = F6_full \<and>
   (\<exists>d. layout_of (s0\<lparr>bbb_isimpon := 2\<rparr>) = Inr d \<and>
        reflect_centred d (bbb_afracs (s0\<lparr>bbb_isimpon := 2\<rparr>))
          = Inr (bbb_afracs (snd (dnbot_to_dnull exmain_alloc (s0\<lparr>bbb_isimpon := 2\<rparr>)))))"
proof -
  let ?t = "s0\<lparr>bbb_isimpon := 2\<rparr>"
  let ?u = "s0\<lparr>com_nx := 10\<rparr>"
  have off: "bbb_isimpon s0 \<noteq> 2" "bbb_isimpon ?u \<noteq> 2" by (simp_all add: s0_def)
  have r: "dnbot_to_dnull exmain_alloc s0 = (None, snd (dnbot_to_dnull exmain_alloc s0))"
    by code_simp
  have z: "bbb_afracs (snd (exmain_alloc (set_switches s0))) = zeros [8, 2]"
    by code_simp
  have u: "fst (dnbot_to_dnull exmain_alloc ?u) = Some ValueError"
    "contains ''dnbot'' (com_geometry ?u)" "isl (reflect_all ?u)" "bbb_afracs ?u = F6"
    by code_simp+
  have g: "exmain_grid ((set_switches s0)\<lparr>bbb_afracs := Sc 7\<rparr>)
     = (fst (exmain_grid (set_switches s0)),
        (snd (exmain_grid (set_switches s0)))\<lparr>bbb_afracs := Sc 7\<rparr>)"
    by (simp add: exmain_grid_def)
  have rg: "fst (dnbot_to_dnull exmain_grid s0) = None" by code_simp
  have on: "bbb_isimpon ?t = 2" "bbb_isimpon (snd (exmain_alloc (set_switches ?t))) = 2"
    by (simp_all add: exmain_alloc_def set_switches_def)
  have r': "dnbot_to_dnull exmain_alloc ?t = (None, snd (dnbot_to_dnull exmain_alloc ?t))"
    by code_simp
  have a: "bbb_afracs (snd (dnbot_to_dnull exmain_alloc ?t)) = F6_full" by code_simp
  have p1: "reflect_all (s0\<lparr>bbb_afracs := Sc 7\<rparr>) = reflect_all s0"
    and p2: "dnbot_to_dnull exmain_alloc s0 = (None, snd (dnbot_to_dnull exmain_alloc s0)) \<longrightarrow>
       bbb_afracs (snd (dnbot_to_dnull exmain_alloc s0))
         = bbb_afracs (snd (exmain_alloc (set_switches s0)))"
    using afracs_only_when_on[of s0 "Sc 7" exmain_alloc "snd (dnbot_to_dnull exmain_alloc s0)"]
      off(1) by blast+
  from p2 r z have p2': "bbb_afracs (snd (dnbot_to_dnull exmain_alloc s0)) = zeros [8, 2]"
    by simp
  have "bbb_afracs (snd (dnbot_to_dnull exmain_alloc ?u))
      = (if contains ''dnbot'' (com_geometry ?u) \<and> \<not> isl (reflect_all ?u)
         then bbb_afracs (snd (exmain_alloc (set_switches ?u))) else bbb_afracs ?u)"
    using afracs_only_when_on[of ?u "Sc 7" exmain_alloc "snd (dnbot_to_dnull exmain_alloc ?u)"]
      off(2) by blast
  with u(3,4) have p3: "bbb_afracs (snd (dnbot_to_dnull exmain_alloc ?u)) = F6"
    by simp
  have "dnbot_to_dnull exmain_grid (s0\<lparr>bbb_afracs := Sc 7\<rparr>)
      = (fst (dnbot_to_dnull exmain_grid s0),
         (snd (dnbot_to_dnull exmain_grid s0))\<lparr>bbb_afracs := Sc 7\<rparr>)"
    using afracs_only_when_on[of s0 "Sc 7" exmain_grid "snd (dnbot_to_dnull exmain_grid s0)"]
      off(1) g by blast
  with rg have p4: "dnbot_to_dnull exmain_grid (s0\<lparr>bbb_afracs := Sc 7\<rparr>)
      = (None, (snd (dnbot_to_dnull exmain_grid s0))\<lparr>bbb_afracs := Sc 7\<rparr>)"
    by simp
  have p5: "\<exists>d. layout_of ?t = Inr d \<and>
        reflect_centred d (bbb_afracs ?t) = Inr (bbb_afracs (snd (dnbot_to_dnull exmain_alloc ?t)))"
    using afracs_only_when_on[of ?t "Sc 7" exmain_alloc "snd (dnbot_to_dnull exmain_alloc ?t)"]
      on r' by blast
  from off r p1 p2' u(1) p3 g p4 on r' a p5 show ?thesis by blast
qed

text \<open>
  C9, as stated, fails: line 128 assigns the constant \<open>1e-8\<close>; the tolerance before the
  call is not kept anywhere. A solver called with tolerance \<open>1e-5\<close> ends with \<open>1e-8\<close>.
\<close>

theorem ftol_restored_counterexample:
  "fst (dnbot_to_dnull exmain_alloc s0) = None \<and> bbb_ftol s0 = 1 / 10 ^ 5 \<and>
   bbb_ftol (snd (dnbot_to_dnull exmain_alloc s0)) = 1 / 10 ^ 8 \<and>
   bbb_ftol (snd (dnbot_to_dnull exmain_alloc s0)) \<noteq> bbb_ftol s0"
  by code_simp

text \<open>
  C9, amended. The solver's step is called with tolerance \<open>1e10\<close>, and after a conversion
  that returned the tolerance is \<open>1e-8\<close>, whatever it was before the call.
\<close>

theorem ftol_after_convert:
  assumes "dnbot_to_dnull exmain s = (None, s')"
  shows "bbb_ftol s' = 1 / 10 ^ 8 \<and> bbb_ftol (set_switches s) = 10 ^ 10"
  using assms by (rule ftol_aux)

theorem ftol_after_convert_witness:
  "dnbot_to_dnull exmain_alloc s0 = (None, snd (dnbot_to_dnull exmain_alloc s0)) \<and>
   bbb_ftol (snd (dnbot_to_dnull exmain_alloc s0)) = 1 / 10 ^ 8 \<and>
   bbb_ftol (set_switches s0) = 10 ^ 10"
proof -
  have r: "dnbot_to_dnull exmain_alloc s0 = (None, snd (dnbot_to_dnull exmain_alloc s0))"
    by code_simp
  from ftol_after_convert[OF r] r show ?thesis by simp
qed

text \<open>
  C10, as stated, fails when the outer half has no cell besides its guard cell
  (\<open>half_outer = 1\<close>): the row \<open>full_inner+half_outer-2\<close> is then the row
  \<open>2*half_inner-3\<close> that line 112 overwrites with its neighbour.
\<close>

theorem zero_row_counterexample:
  "consistent_ups d31 1 U4 \<and> upss_of d31 1 U4 = Inr U4_full \<and>
   full_inner d31 + half_outer d31 - 2 = 3 \<and>
   get_row 3 U4_full = Inr (mat 1 [[-1], [-3]]) \<and>
   mat 1 [[-1], [-3]] \<noteq> (zeros [2, 1] :: real nd) \<and>
   layout_of s31 = Inr d31 \<and> fst (dnbot_to_dnull exmain_alloc s31) = None \<and>
   get_row 3 (bbb_ups (snd (dnbot_to_dnull exmain_alloc s31))) = Inr (mat 1 [[-1], [-3]])"
  by code_simp

text \<open>
  C10, amended. When the flow array fits the layout and the outer half has a cell
  besides its guard cell (\<open>half_outer \<ge> 2\<close>), after a conversion that returned the row
  \<open>full_inner+half_outer-2\<close> of the committed flow field is the zero row.
\<close>

theorem zero_row_committed:
  assumes "dnbot_to_dnull exmain s = (None, s')" and "layout_of s = Inr d"
    and "consistent_ups d (com_nusp s) (bbb_ups s)" and "2 \<le> half_outer d"
  shows "\<exists>row. get_row (full_inner d + half_outer d - 2) (bbb_ups s') = Inr row \<and>
           row = zeros [nat (half_ny d + 2), nat (com_nusp s)] \<and> all_nd (\<lambda>v. v = 0) row"
  using assms by (rule zero_row_aux)

theorem zero_row_committed_witness:
  "dnbot_to_dnull exmain_alloc s0 = (None, snd (dnbot_to_dnull exmain_alloc s0)) \<and>
   layout_of s0 = Inr d33 \<and> consistent_ups d33 (com_nusp s0) (bbb_ups s0) \<and>
   2 \<le> half_outer d33 \<and>
   (\<exists>row. get_row (full_inner d33 + half_outer d33 - 2)
            (bbb_ups (snd (dnbot_to_dnull exmain_alloc s0))) = Inr row \<and>
          row = zeros [nat (half_ny d33 + 2), nat (com_nusp s0)] \<and>
          all_nd (\<lambda>v. v = 0) row)"
proof -
  have r: "dnbot_to_dnull exmain_alloc s0 = (None, snd (dnbot_to_dnull exmain_alloc s0))"
    by code_simp
  have l: "layout_of s0 = Inr d33" by code_simp
  have c: "consistent_ups d33 (com_nusp s0) (bbb_ups s0)" by code_simp
  have o: "2 \<le> half_outer d33" by (simp add: d33_def)
  from zero_row_committed[OF r l c o] r l c o show ?thesis by blast
qed

end
